theory Spec2Isabelle
  imports Main "HOL-Library.Multiset" "HOL-Library.Char_ord" "HOL-Library.List_Lexorder"
begin

section \<open>Data model (internal/types)\<close>

datatype ProviderKind = ProviderKindStruct | ProviderKindFunc

record TypeRef =
  Name :: string
  ImportPath :: string
  IsPointer :: bool

definition Key :: "TypeRef \<Rightarrow> string" where
  "Key t =
     (let prefix = (if IsPointer t then ''*'' else '''')
      in if ImportPath t = '''' then prefix @ Name t
         else prefix @ ImportPath t @ ''.'' @ Name t)"

record Dependency =
  FieldName :: string
  Type :: TypeRef

record Provider =
  Name_P :: string
  Kind :: ProviderKind
  ProvidedType :: TypeRef
  Dependencies_P :: "Dependency list"
  CanError_P :: bool
  ImportPath_P :: string
  VarName :: string

record Invocation =
  Name_I :: string
  Dependencies_I :: "TypeRef list"
  CanError_I :: bool
  ImportPath_I :: string

record ParseResult =
  Providers :: "Provider list"
  Invocations :: "Invocation list"
  OutputPackage :: string
  OutputImportPath :: string
  OutputPath :: string

text \<open>The analyzer's \<open>Result\<close> struct; \<open>Imports\<close> is a Go \<open>map[string]string\<close>.\<close>

record Result =
  Providers_R :: "Provider list"
  Invocations_R :: "Invocation list"
  PackageName :: string
  OutputImportPath_R :: string
  Imports :: "string \<rightharpoonup> string"

section \<open>Formatting helpers\<close>

text \<open>
  \<open>fmt.Sprintf("%d", n)\<close> for a count \<open>n \<ge> 0\<close>. The counts of the analyzer are bounded
  by the length of a slice, so the Go \<open>int\<close> never wraps and is modelled by \<open>nat\<close>.
\<close>

definition digit_char :: "nat \<Rightarrow> char" where
  "digit_char d = ''0123456789'' ! d"

function string_of_nat :: "nat \<Rightarrow> string" where
  "string_of_nat n =
     (if n < 10 then [digit_char n]
      else string_of_nat (n div 10) @ [digit_char (n mod 10)])"
  by pat_completeness auto
termination
  by (relation "measure id") auto

declare string_of_nat.simps [simp del]

text \<open>\<open>strings.Join(elems, sep)\<close>.\<close>

fun Join :: "string list \<Rightarrow> string \<Rightarrow> string" where
  "Join [] sep = ''''"
| "Join [x] sep = x"
| "Join (x # y # ys) sep = x @ sep @ Join (y # ys) sep"

section \<open>Errors of the analyzer\<close>

text \<open>
  Every error of the analyzer is built by \<open>fmt.Errorf\<close> from a format string and its
  arguments. The error value keeps the arguments; \<open>error_message\<close> is the text that
  \<open>Error()\<close> returns.
\<close>

datatype analyze_error =
    DuplicateProvider string string string
  | MissingDependencies "string list"
  | CircularDependency "string list"

fun error_message :: "analyze_error \<Rightarrow> string" where
  "error_message (DuplicateProvider key dup p) =
     ''duplicate provider for '' @ key @ '': '' @ dup @ '' and '' @ p"
| "error_message (MissingDependencies missing) =
     ''missing dependencies:'' @ [CHR 0x0A] @ ''  '' @ Join missing ([CHR 0x0A] @ ''  '')"
| "error_message (CircularDependency path) =
     ''circular dependency: '' @ Join path '' -> ''"

section \<open>Analyzer (internal/analyzer/analyzer.go)\<close>

subsection \<open>Index build and duplicate check\<close>

text \<open>The first loop of \<open>Analyze\<close>: \<open>byType\<close> is threaded through the iteration.\<close>

fun indexProviders ::
  "(string \<rightharpoonup> Provider) \<Rightarrow> Provider list \<Rightarrow> analyze_error + (string \<rightharpoonup> Provider)" where
  "indexProviders byType [] = Inr byType"
| "indexProviders byType (p # ps) =
     (let key = Key (ProvidedType p)
      in case byType key of
           Some dup \<Rightarrow> Inl (DuplicateProvider key (Name_P dup) (Name_P p))
         | None \<Rightarrow> indexProviders (byType(key \<mapsto> p)) ps)"

subsection \<open>validateDeps\<close>

fun missingProviderDeps ::
  "(string \<rightharpoonup> Provider) \<Rightarrow> string \<Rightarrow> Dependency list \<Rightarrow> string list \<Rightarrow> string list" where
  "missingProviderDeps byType name [] missing = missing"
| "missingProviderDeps byType name (dep # deps) missing =
     missingProviderDeps byType name deps
       (if byType (Key (Type dep)) = None
        then missing @ [name @ '' requires '' @ Key (Type dep)]
        else missing)"

fun missingInvocationDeps ::
  "(string \<rightharpoonup> Provider) \<Rightarrow> string \<Rightarrow> TypeRef list \<Rightarrow> string list \<Rightarrow> string list" where
  "missingInvocationDeps byType name [] missing = missing"
| "missingInvocationDeps byType name (dep # deps) missing =
     missingInvocationDeps byType name deps
       (if byType (Key dep) = None
        then missing @ [name @ '' requires '' @ Key dep]
        else missing)"

fun missingProviders ::
  "(string \<rightharpoonup> Provider) \<Rightarrow> Provider list \<Rightarrow> string list \<Rightarrow> string list" where
  "missingProviders byType [] missing = missing"
| "missingProviders byType (p # ps) missing =
     missingProviders byType ps
       (missingProviderDeps byType (Name_P p) (Dependencies_P p) missing)"

fun missingInvocations ::
  "(string \<rightharpoonup> Provider) \<Rightarrow> Invocation list \<Rightarrow> string list \<Rightarrow> string list" where
  "missingInvocations byType [] missing = missing"
| "missingInvocations byType (iv # invs) missing =
     missingInvocations byType invs
       (missingInvocationDeps byType (Name_I iv) (Dependencies_I iv) missing)"

text \<open>\<open>None\<close> is the \<open>nil\<close> error.\<close>

definition validateDeps ::
  "Provider list \<Rightarrow> Invocation list \<Rightarrow> (string \<rightharpoonup> Provider) \<Rightarrow> analyze_error option" where
  "validateDeps providers invocations byType =
     (let missing = missingInvocations byType invocations (missingProviders byType providers [])
      in if length missing > 0 then Some (MissingDependencies missing) else None)"

subsection \<open>resolveVarNames\<close>

text \<open>
  The loop mutates \<open>providers[i].VarName\<close> in place; each element is read and written
  only in its own iteration, so the model returns the updated slice. \<open>usedNames\<close> is a
  \<open>map[string]int\<close>, whose missing keys read as 0.
\<close>

fun resolveVarNames_loop :: "(string \<Rightarrow> nat) \<Rightarrow> Provider list \<Rightarrow> Provider list" where
  "resolveVarNames_loop usedNames [] = []"
| "resolveVarNames_loop usedNames (p # ps) =
     (let baseName = VarName p;
          count = usedNames baseName;
          usedNames' = usedNames(baseName := count + 1)
      in (if count = 0 then p else p\<lparr>VarName := baseName @ string_of_nat count\<rparr>)
         # resolveVarNames_loop usedNames' ps)"

definition resolveVarNames :: "Provider list \<Rightarrow> Provider list" where
  "resolveVarNames providers = resolveVarNames_loop (\<lambda>_. 0) providers"

subsection \<open>topoSort\<close>

text \<open>
  The closure \<open>visit\<close> mutates the three variables it captures; they are the fields of
  the traversal state. Both maps are \<open>map[string]bool\<close>, whose missing keys read as
  \<open>false\<close>.
\<close>

record visit_state =
  visited :: "string \<Rightarrow> bool"
  inStack :: "string \<Rightarrow> bool"
  result :: "Provider list"

type_synonym visit_result = "(analyze_error + visit_state) option"

text \<open>
  The loop over \<open>p.Dependencies\<close> inside \<open>visit\<close>; \<open>rec\<close> is the recursive call. It
  stops at the first error.
\<close>

fun visitDeps ::
  "(Provider \<Rightarrow> string list \<Rightarrow> visit_state \<Rightarrow> visit_result) \<Rightarrow> (string \<rightharpoonup> Provider) \<Rightarrow>
   Dependency list \<Rightarrow> string list \<Rightarrow> visit_state \<Rightarrow> visit_result" where
  "visitDeps rec byType [] path st = Some (Inr st)"
| "visitDeps rec byType (dep # deps) path st =
     (case byType (Key (Type dep)) of
        None \<Rightarrow> visitDeps rec byType deps path st
      | Some depProvider \<Rightarrow>
          (case rec depProvider path st of
             None \<Rightarrow> None
           | Some (Inl err) \<Rightarrow> Some (Inl err)
           | Some (Inr st') \<Rightarrow> visitDeps rec byType deps path st'))"

text \<open>
  \<open>visit\<close> recurses along the dependency edges. The first argument bounds the depth of
  the recursion: \<open>None\<close> means that the bound was reached before the call returned.
  \<open>visit_enough_fuel\<close> below shows that a bound above the number of indexed keys is
  never reached, and \<open>visit_fuel_mono\<close> that a larger bound does not change a result.
\<close>

primrec visit ::
  "nat \<Rightarrow> (string \<rightharpoonup> Provider) \<Rightarrow> Provider \<Rightarrow> string list \<Rightarrow> visit_state \<Rightarrow> visit_result" where
  "visit 0 byType p path st = None"
| "visit (Suc fuel) byType p path st =
     (let key = Key (ProvidedType p)
      in if inStack st key then Some (Inl (CircularDependency (path @ [key])))
         else if visited st key then Some (Inr st)
         else (case visitDeps (visit fuel byType) byType (Dependencies_P p) (path @ [key])
                      (st\<lparr>inStack := (inStack st)(key := True)\<rparr>) of
                 None \<Rightarrow> None
               | Some (Inl err) \<Rightarrow> Some (Inl err)
               | Some (Inr st') \<Rightarrow>
                   Some (Inr (st'\<lparr>inStack := (inStack st')(key := False),
                                  visited := (visited st')(key := True),
                                  result := result st' @ [p]\<rparr>))))"

text \<open>The roots: the dependencies of one invocation, all invocations, then all providers.\<close>

fun visitInvocationDeps ::
  "(Provider \<Rightarrow> string list \<Rightarrow> visit_state \<Rightarrow> visit_result) \<Rightarrow> (string \<rightharpoonup> Provider) \<Rightarrow>
   TypeRef list \<Rightarrow> visit_state \<Rightarrow> visit_result" where
  "visitInvocationDeps rec byType [] st = Some (Inr st)"
| "visitInvocationDeps rec byType (dep # deps) st =
     (case byType (Key dep) of
        None \<Rightarrow> visitInvocationDeps rec byType deps st
      | Some p \<Rightarrow>
          (case rec p [] st of
             None \<Rightarrow> None
           | Some (Inl err) \<Rightarrow> Some (Inl err)
           | Some (Inr st') \<Rightarrow> visitInvocationDeps rec byType deps st'))"

fun visitInvocations ::
  "(Provider \<Rightarrow> string list \<Rightarrow> visit_state \<Rightarrow> visit_result) \<Rightarrow> (string \<rightharpoonup> Provider) \<Rightarrow>
   Invocation list \<Rightarrow> visit_state \<Rightarrow> visit_result" where
  "visitInvocations rec byType [] st = Some (Inr st)"
| "visitInvocations rec byType (iv # invs) st =
     (case visitInvocationDeps rec byType (Dependencies_I iv) st of
        None \<Rightarrow> None
      | Some (Inl err) \<Rightarrow> Some (Inl err)
      | Some (Inr st') \<Rightarrow> visitInvocations rec byType invs st')"

fun visitProviders ::
  "(Provider \<Rightarrow> string list \<Rightarrow> visit_state \<Rightarrow> visit_result) \<Rightarrow>
   Provider list \<Rightarrow> visit_state \<Rightarrow> visit_result" where
  "visitProviders rec [] st = Some (Inr st)"
| "visitProviders rec (p # ps) st =
     (case rec p [] st of
        None \<Rightarrow> None
      | Some (Inl err) \<Rightarrow> Some (Inl err)
      | Some (Inr st') \<Rightarrow> visitProviders rec ps st')"

definition initial_state :: visit_state where
  "initial_state = \<lparr>visited = (\<lambda>_. False), inStack = (\<lambda>_. False), result = []\<rparr>"

definition topoSort ::
  "nat \<Rightarrow> Provider list \<Rightarrow> Invocation list \<Rightarrow> (string \<rightharpoonup> Provider) \<Rightarrow>
   (analyze_error + Provider list) option" where
  "topoSort fuel providers invocations byType =
     (case visitInvocations (visit fuel byType) byType invocations initial_state of
        None \<Rightarrow> None
      | Some (Inl err) \<Rightarrow> Some (Inl err)
      | Some (Inr st) \<Rightarrow>
          (case visitProviders (visit fuel byType) providers st of
             None \<Rightarrow> None
           | Some (Inl err) \<Rightarrow> Some (Inl err)
           | Some (Inr st') \<Rightarrow> Some (Inr (result st'))))"

subsection \<open>collectImports and resolveImportAliases\<close>

text \<open>
  \<open>paths\<close> is a \<open>map[string]struct{}\<close> used as a set: a list without repetitions, in
  which \<open>addPath\<close> stores a path once. The order of the list stands for the order in
  which \<open>range paths\<close> yields the keys, which Go leaves unspecified.
\<close>

definition addPath :: "string \<Rightarrow> string \<Rightarrow> string list \<Rightarrow> string list" where
  "addPath outputPath path paths =
     (if path = '''' \<or> path = outputPath then paths else List.insert path paths)"

definition collectPaths :: "Provider list \<Rightarrow> Invocation list \<Rightarrow> string \<Rightarrow> string list" where
  "collectPaths providers invocations outputPath =
     (let paths =
            fold (\<lambda>p paths.
                    fold (\<lambda>dep. addPath outputPath (ImportPath (Type dep))) (Dependencies_P p)
                      (addPath outputPath (ImportPath_P p) paths))
              providers []
      in fold (\<lambda>iv paths.
                 fold (\<lambda>dep. addPath outputPath (ImportPath dep)) (Dependencies_I iv)
                   (addPath outputPath (ImportPath_I iv) paths))
           invocations paths)"

fun assignAliases ::
  "(string \<Rightarrow> string) \<Rightarrow> string list \<Rightarrow> (string \<Rightarrow> nat) \<Rightarrow> (string \<rightharpoonup> string) \<Rightarrow>
   (string \<rightharpoonup> string)" where
  "assignAliases resolver [] baseCount imports = imports"
| "assignAliases resolver (path # sortedPaths) baseCount imports =
     (let base = resolver path;
          count = baseCount base;
          baseCount' = baseCount(base := count + 1)
      in assignAliases resolver sortedPaths baseCount'
           (imports(path \<mapsto> (if count = 0 then '''' else base @ string_of_nat count))))"

text \<open>
  \<open>sort.Strings\<close> orders by bytes, lexicographically, as the order of \<open>string\<close> does.
  The resolver is the \<open>PackageNameResolver\<close> interface, a function of the path.
\<close>

definition resolveImportAliases :: "string list \<Rightarrow> (string \<Rightarrow> string) \<Rightarrow> (string \<rightharpoonup> string)" where
  "resolveImportAliases paths resolver =
     assignAliases resolver (sort paths) (\<lambda>_. 0) Map.empty"

definition collectImports ::
  "Provider list \<Rightarrow> Invocation list \<Rightarrow> string \<Rightarrow> (string \<Rightarrow> string) \<Rightarrow> (string \<rightharpoonup> string)" where
  "collectImports providers invocations outputPath resolver =
     resolveImportAliases (collectPaths providers invocations outputPath) resolver"

subsection \<open>Analyze\<close>

text \<open>
  \<open>None\<close> would mean that the traversal did not return within its bound; \<open>Analyze_returns\<close>
  shows that it never happens.
\<close>

definition Analyze :: "ParseResult \<Rightarrow> (string \<Rightarrow> string) \<Rightarrow> (analyze_error + Result) option" where
  "Analyze parsed resolver =
     (case indexProviders Map.empty (Providers parsed) of
        Inl err \<Rightarrow> Some (Inl err)
      | Inr byType \<Rightarrow>
          (case validateDeps (Providers parsed) (Invocations parsed) byType of
             Some err \<Rightarrow> Some (Inl err)
           | None \<Rightarrow>
               (case topoSort (Suc (length (Providers parsed))) (Providers parsed)
                       (Invocations parsed) byType of
                  None \<Rightarrow> None
                | Some (Inl err) \<Rightarrow> Some (Inl err)
                | Some (Inr ordered) \<Rightarrow>
                    (let ordered' = resolveVarNames ordered
                     in Some (Inr \<lparr>Providers_R = ordered',
                                   Invocations_R = Invocations parsed,
                                   PackageName = OutputPackage parsed,
                                   OutputImportPath_R = OutputImportPath parsed,
                                   Imports = collectImports ordered' (Invocations parsed)
                                               (OutputImportPath parsed) resolver\<rparr>)))))"

section \<open>Zero values and fixtures\<close>

text \<open>
  The Go zero values of the structs, from which the tests of the repository build their
  inputs (\<open>types.Provider{VarName: name}\<close> and the like).
\<close>

definition zeroTypeRef :: TypeRef where
  "zeroTypeRef = \<lparr>Name = [], ImportPath = [], IsPointer = False\<rparr>"

definition zeroProvider :: Provider where
  "zeroProvider =
     \<lparr>Name_P = [], Kind = ProviderKindStruct, ProvidedType = zeroTypeRef,
      Dependencies_P = [], CanError_P = False, ImportPath_P = [], VarName = []\<rparr>"

definition zeroInvocation :: Invocation where
  "zeroInvocation =
     \<lparr>Name_I = [], Dependencies_I = [], CanError_I = False, ImportPath_I = []\<rparr>"

text \<open>A provider of the root-package type \<open>n\<close>, named \<open>n\<close>, that depends on the types \<open>ds\<close>.\<close>

definition typeNamed :: "string \<Rightarrow> TypeRef" where
  "typeNamed n = zeroTypeRef\<lparr>Name := n\<rparr>"

definition depOn :: "string \<Rightarrow> Dependency" where
  "depOn n = \<lparr>FieldName = [], Type = typeNamed n\<rparr>"

definition providerOf :: "string \<Rightarrow> string list \<Rightarrow> Provider" where
  "providerOf n ds =
     zeroProvider\<lparr>Name_P := n, ProvidedType := typeNamed n, Dependencies_P := map depOn ds\<rparr>"

definition parseResultOf :: "Provider list \<Rightarrow> Invocation list \<Rightarrow> ParseResult" where
  "parseResultOf ps ivs =
     \<lparr>Providers = ps, Invocations = ivs, OutputPackage = ''main'',
      OutputImportPath = ''example.com/app'', OutputPath = ''.''\<rparr>"


text \<open>The diamond of the specification: \<open>A\<close> needs \<open>B\<close> and \<open>C\<close>, which both need \<open>D\<close>.\<close>

definition diamond :: ParseResult where
  "diamond =
     parseResultOf
       [providerOf ''A'' [''B'', ''C''], providerOf ''B'' [''D''], providerOf ''C'' [''D''],
        providerOf ''D'' []] []"

text \<open>A provider reached through an invocation: \<open>run\<close> needs \<open>A\<close>, which needs \<open>B\<close>.\<close>

definition chain :: ParseResult where
  "chain =
     parseResultOf [providerOf ''A'' [''B''], providerOf ''B'' []]
       [zeroInvocation\<lparr>Name_I := ''run'', Dependencies_I := [typeNamed ''A'']\<rparr>]"

text \<open>A cycle behind a lead-in: \<open>A\<close> needs \<open>B\<close>, \<open>B\<close> needs \<open>C\<close>, and \<open>C\<close> needs \<open>B\<close> again.\<close>

definition lasso :: ParseResult where
  "lasso =
     parseResultOf
       [providerOf ''A'' [''B''], providerOf ''B'' [''C''], providerOf ''C'' [''B'']] []"

text \<open>
  Three constructor providers as the parser records them, the variable name being the type
  name in lower camel case: \<open>*a.Config\<close>, \<open>*b.Config\<close> and \<open>*c.Config1\<close>.
\<close>

definition configOf :: "string \<Rightarrow> string \<Rightarrow> string \<Rightarrow> Provider" where
  "configOf pkg n v =
     zeroProvider\<lparr>Name_P := ''New'' @ n, Kind := ProviderKindFunc,
        ProvidedType := \<lparr>Name = n, ImportPath = pkg, IsPointer = True\<rparr>,
        ImportPath_P := pkg, VarName := v\<rparr>"

definition clash :: ParseResult where
  "clash =
     parseResultOf
       [configOf ''example.com/a'' ''Config'' ''config'',
        configOf ''example.com/b'' ''Config'' ''config'',
        configOf ''example.com/c'' ''Config1'' ''config1''] []"




section \<open>Resolver (internal/resolver)\<close>

subsection \<open>Library functions\<close>

text \<open>
  \<open>fallbackName\<close> calls \<open>filepath.Base\<close>, \<open>filepath.Dir\<close>, \<open>strings.LastIndex\<close> and
  \<open>strings.CutSuffix\<close> of the Go standard library. They are written here as the library
  has them on a system whose path separator is \<open>/\<close> and that has no volume names. A Go
  string is a sequence of bytes, as a \<open>string\<close> is here.
\<close>

definition IsPathSeparator :: "char \<Rightarrow> bool" where
  "IsPathSeparator c \<longleftrightarrow> c = CHR ''/''"

text \<open>
  \<open>filepath.Base\<close>: the last element of the path. The empty path gives \<open>.\<close>; trailing
  separators are removed first; a path of separators only gives one separator.
\<close>

definition Base :: "string \<Rightarrow> string" where
  "Base path =
     (if path = '''' then ''.''
      else let stripped = rev (dropWhile IsPathSeparator (rev path));
               element = rev (takeWhile (\<lambda>c. \<not> IsPathSeparator c) (rev stripped))
           in if element = '''' then ''/'' else element)"

text \<open>
  \<open>filepath.Clean\<close> reads the path element by element. \<open>elements\<close> are the pieces between
  separators. \<open>cleanElements\<close> is the loop: an empty element and \<open>.\<close> are dropped; \<open>..\<close>
  removes the element before it when there is one that is not itself \<open>..\<close>, is dropped at
  the root of a rooted path, and is kept otherwise; any other element is kept. The result
  is joined again, after the leading separator of a rooted path, and an empty result is \<open>.\<close>.
\<close>

fun elements :: "string \<Rightarrow> string list" where
  "elements [] = [[]]"
| "elements (c # cs) =
     (if IsPathSeparator c then [] # elements cs
      else (case elements cs of [] \<Rightarrow> [[c]] | e # es \<Rightarrow> (c # e) # es))"

fun cleanElements :: "bool \<Rightarrow> string list \<Rightarrow> string list \<Rightarrow> string list" where
  "cleanElements rooted out [] = out"
| "cleanElements rooted out (e # es) =
     (if e = '''' \<or> e = ''.'' then cleanElements rooted out es
      else if e = ''..'' then
        (if out \<noteq> [] \<and> last out \<noteq> ''..'' then cleanElements rooted (butlast out) es
         else if rooted then cleanElements rooted out es
         else cleanElements rooted (out @ [''..'']) es)
      else cleanElements rooted (out @ [e]) es)"

definition Clean :: "string \<Rightarrow> string" where
  "Clean path =
     (if path = '''' then ''.''
      else let rooted = IsPathSeparator (hd path);
               out = cleanElements rooted [] (elements path);
               cleaned = (if rooted then ''/'' else '''') @ Join out ''/''
           in if cleaned = '''' then ''.'' else cleaned)"

text \<open>\<open>filepath.Dir\<close>: the path up to and including its last separator, cleaned.\<close>

definition Dir :: "string \<Rightarrow> string" where
  "Dir path = Clean (rev (dropWhile (\<lambda>c. \<not> IsPathSeparator c) (rev path)))"

text \<open>
  \<open>strings.LastIndex\<close>: the index of the last instance of \<open>substr\<close> in \<open>s\<close>, or \<open>-1\<close>. The
  search goes down from the end.
\<close>

fun LastIndex_from :: "string \<Rightarrow> string \<Rightarrow> nat \<Rightarrow> int" where
  "LastIndex_from s substr 0 = (if take (length substr) s = substr then 0 else - 1)"
| "LastIndex_from s substr (Suc i) =
     (if take (length substr) (drop (Suc i) s) = substr then int (Suc i)
      else LastIndex_from s substr i)"

definition LastIndex :: "string \<Rightarrow> string \<Rightarrow> int" where
  "LastIndex s substr = LastIndex_from s substr (length s)"

text \<open>
  \<open>strings.CutSuffix\<close>: \<open>s\<close> without the suffix and \<open>true\<close> when \<open>s\<close> ends with it, \<open>s\<close> and
  \<open>false\<close> otherwise.
\<close>

definition HasSuffix :: "string \<Rightarrow> string \<Rightarrow> bool" where
  "HasSuffix s suffix \<longleftrightarrow>
     length suffix \<le> length s \<and> drop (length s - length suffix) s = suffix"

definition CutSuffix :: "string \<Rightarrow> string \<Rightarrow> string \<times> bool" where
  "CutSuffix s suffix =
     (if HasSuffix s suffix then (take (length s - length suffix) s, True) else (s, False))"

subsection \<open>fallbackName\<close>

definition isVersionSuffix :: "string \<Rightarrow> bool" where
  "isVersionSuffix s =
     (if length s < 2 \<or> s ! 0 \<noteq> CHR ''v'' then False
      else list_all (\<lambda>c. \<not> (c < CHR ''0'' \<or> c > CHR ''9'')) (drop 1 s))"

definition versionSuffix :: "string \<Rightarrow> string" where
  "versionSuffix s =
     (let idx = LastIndex s ''.v''
      in if idx = - 1 then ''''
         else let suffix = drop (nat (idx + 1)) s
              in if \<not> isVersionSuffix suffix then '''' else ''.'' @ suffix)"

definition fallbackName :: "string \<Rightarrow> string" where
  "fallbackName importPath =
     (let base = Base importPath
      in if isVersionSuffix base then Base (Dir importPath)
         else (case CutSuffix base (versionSuffix base) of
                 (name, ok) \<Rightarrow> if ok then name else base))"


section \<open>Notions used by the properties\<close>

text \<open>The key under which a provider is indexed.\<close>

definition providedKey :: "Provider \<Rightarrow> string" where
  "providedKey p = Key (ProvidedType p)"

text \<open>
  \<open>indexed m seen\<close>: the index \<open>m\<close> holds exactly the providers \<open>seen\<close>, each under its
  own key, and no two of them share a key.
\<close>

definition indexed :: "(string \<rightharpoonup> Provider) \<Rightarrow> Provider list \<Rightarrow> bool" where
  "indexed m seen \<longleftrightarrow>
     distinct (map providedKey seen) \<and> dom m = providedKey ` set seen \<and>
     (\<forall>q\<in>set seen. m (providedKey q) = Some q)"

text \<open>
  The unmet references of a ParseResult, as the specification words them: the pairs of a
  requesting entity and a key that no provider provides, over every dependency of every
  provider and then every required type of every invocation. \<open>missing_entry\<close> is the
  line that reports one of them.
\<close>

definition spec_unmet_references :: "Provider list \<Rightarrow> Invocation list \<Rightarrow> (string \<times> string) list" where
  "spec_unmet_references providers invocations =
     concat (map (\<lambda>p. map (\<lambda>dep. (Name_P p, Key (Type dep)))
                        (filter (\<lambda>dep. Key (Type dep) \<notin> providedKey ` set providers)
                           (Dependencies_P p)))
               providers) @
     concat (map (\<lambda>iv. map (\<lambda>dep. (Name_I iv, Key dep))
                         (filter (\<lambda>dep. Key dep \<notin> providedKey ` set providers)
                            (Dependencies_I iv)))
               invocations)"

definition missing_entry :: "string \<times> string \<Rightarrow> string" where
  "missing_entry e = fst e @ '' requires '' @ snd e"

text \<open>
  Notions for the traversal. \<open>key_consistent\<close>: every indexed provider sits under its own
  key. \<open>deps_before\<close>: in a list of providers, each dependency that the index provides is
  provided at an earlier position. \<open>state_inv\<close>: the visited keys are the keys of the
  result, no key occurs twice in it, every element is the indexed provider of its key, and
  the result has its dependencies first. \<open>returns_to\<close>: what a call that returns without
  error leaves behind.
\<close>

definition key_consistent :: "(string \<rightharpoonup> Provider) \<Rightarrow> bool" where
  "key_consistent byType \<longleftrightarrow> (\<forall>k q. byType k = Some q \<longrightarrow> providedKey q = k)"

definition deps_before :: "(string \<rightharpoonup> Provider) \<Rightarrow> Provider list \<Rightarrow> bool" where
  "deps_before byType rs \<longleftrightarrow>
     (\<forall>i<length rs. \<forall>d\<in>set (Dependencies_P (rs ! i)).
        byType (Key (Type d)) \<noteq> None \<longrightarrow> (\<exists>j<i. providedKey (rs ! j) = Key (Type d)))"

definition state_inv :: "(string \<rightharpoonup> Provider) \<Rightarrow> visit_state \<Rightarrow> bool" where
  "state_inv byType st \<longleftrightarrow>
     (\<forall>k. visited st k \<longleftrightarrow> k \<in> providedKey ` set (result st)) \<and>
     distinct (map providedKey (result st)) \<and>
     (\<forall>q\<in>set (result st). byType (providedKey q) = Some q) \<and>
     deps_before byType (result st)"

definition returns_to :: "(string \<rightharpoonup> Provider) \<Rightarrow> visit_state \<Rightarrow> visit_state \<Rightarrow> bool" where
  "returns_to byType st st' \<longleftrightarrow>
     inStack st' = inStack st \<and>
     (\<forall>k. visited st k \<longrightarrow> visited st' k) \<and>
     (\<forall>k. inStack st k \<longrightarrow> visited st' k = visited st k) \<and>
     state_inv byType st'"

text \<open>What a recursive call is assumed to do when it returns without error.\<close>

definition rec_returns :: "(string \<rightharpoonup> Provider) \<Rightarrow>
    (Provider \<Rightarrow> string list \<Rightarrow> visit_state \<Rightarrow> visit_result) \<Rightarrow> bool" where
  "rec_returns byType rec \<longleftrightarrow>
     (\<forall>q path st st'. state_inv byType st \<longrightarrow> byType (providedKey q) = Some q \<longrightarrow>
        rec q path st = Some (Inr st') \<longrightarrow>
        returns_to byType st st' \<and> visited st' (providedKey q))"

text \<open>
  Notions for the recursion bound. \<open>keeps_stack\<close>: a call that returns without error leaves
  \<open>inStack\<close> as it found it. \<open>free_keys\<close>: the indexed keys that are not on the stack; each
  level of the recursion takes one. \<open>returns_on\<close>: the call returns on every indexed provider
  when the stack is \<open>S\<close>. \<open>fuel_le\<close>: whatever the first visitor returns, the second returns.
\<close>

definition keeps_stack :: "(Provider \<Rightarrow> string list \<Rightarrow> visit_state \<Rightarrow> visit_result) \<Rightarrow> bool" where
  "keeps_stack rec \<longleftrightarrow>
     (\<forall>q path st st'. rec q path st = Some (Inr st') \<longrightarrow> inStack st' = inStack st)"

definition free_keys :: "(string \<rightharpoonup> Provider) \<Rightarrow> visit_state \<Rightarrow> string set" where
  "free_keys byType st = {k \<in> dom byType. \<not> inStack st k}"

definition returns_on ::
  "(string \<rightharpoonup> Provider) \<Rightarrow> (string \<Rightarrow> bool) \<Rightarrow>
   (Provider \<Rightarrow> string list \<Rightarrow> visit_state \<Rightarrow> visit_result) \<Rightarrow> bool" where
  "returns_on byType S rec \<longleftrightarrow>
     (\<forall>q path st. byType (providedKey q) = Some q \<longrightarrow> inStack st = S \<longrightarrow>
        rec q path st \<noteq> None)"

definition fuel_le ::
  "(Provider \<Rightarrow> string list \<Rightarrow> visit_state \<Rightarrow> visit_result) \<Rightarrow>
   (Provider \<Rightarrow> string list \<Rightarrow> visit_state \<Rightarrow> visit_result) \<Rightarrow> bool" where
  "fuel_le rec rec' \<longleftrightarrow> (\<forall>q path st r. rec q path st = Some r \<longrightarrow> rec' q path st = Some r)"

text \<open>
  The namespaces that occur in the input of \<open>collectImports\<close>: of each provider, of each of
  its dependencies, of each invocation and of each type an invocation requires.
\<close>

definition spec_namespaces :: "Provider list \<Rightarrow> Invocation list \<Rightarrow> string set" where
  "spec_namespaces providers invocations =
     ImportPath_P ` set providers \<union>
     (\<Union>p \<in> set providers. (\<lambda>dep. ImportPath (Type dep)) ` set (Dependencies_P p)) \<union>
     ImportPath_I ` set invocations \<union>
     (\<Union>iv \<in> set invocations. ImportPath ` set (Dependencies_I iv))"

text \<open>
  Notions for cycles. \<open>depends_on\<close>: the depends-on relation on provided keys, an edge for
  each declared dependency whose key some provider provides. \<open>follows_deps\<close>: consecutive
  keys of a path are edges of that relation. \<open>reaches_cycle\<close>: from the key, along zero or
  more edges, one comes to a key that lies on a cycle. \<open>root_keys\<close>: the keys at which the
  traversal starts, in its order: what each invocation requires, then each provider.
  \<open>reports_from\<close>: the error is a cycle error whose path starts with the given keys, follows
  the edges, and repeats no key but the last, which occurred before. \<open>enters\<close>: the
  situation in which the traversal calls the visitor. \<open>rec_reports\<close>: every error of the
  visitor is such a report, from the path of the call and the key visited.
  \<open>root_report\<close>: the error is a report from one of the roots, and no root before it
  reaches a cycle. \<open>roots_done\<close>: what a loop over roots leaves, an error of that kind or a
  state in which none of its roots reaches a cycle.
\<close>

definition depends_on :: "Provider list \<Rightarrow> (string \<times> string) set" where
  "depends_on ps =
     {(k, k'). \<exists>p d. p \<in> set ps \<and> providedKey p = k \<and> d \<in> set (Dependencies_P p) \<and>
                 Key (Type d) = k' \<and> k' \<in> providedKey ` set ps}"

definition follows_deps :: "Provider list \<Rightarrow> string list \<Rightarrow> bool" where
  "follows_deps ps path \<longleftrightarrow>
     (\<forall>i. Suc i < length path \<longrightarrow> (path ! i, path ! Suc i) \<in> depends_on ps)"

definition reaches_cycle :: "Provider list \<Rightarrow> string \<Rightarrow> bool" where
  "reaches_cycle ps k \<longleftrightarrow>
     (\<exists>c. (k, c) \<in> (depends_on ps)\<^sup>* \<and> (c, c) \<in> (depends_on ps)\<^sup>+)"

definition root_keys :: "Provider list \<Rightarrow> Invocation list \<Rightarrow> string list" where
  "root_keys ps invs =
     concat (map (\<lambda>iv. map Key (Dependencies_I iv)) invs) @ map providedKey ps"

definition reports_from :: "Provider list \<Rightarrow> string list \<Rightarrow> analyze_error \<Rightarrow> bool" where
  "reports_from ps pfx e \<longleftrightarrow>
     (\<exists>rest. e = CircularDependency (pfx @ rest) \<and> follows_deps ps (pfx @ rest) \<and>
        distinct (butlast (pfx @ rest)) \<and> last (pfx @ rest) \<in> set (butlast (pfx @ rest)))"

definition enters :: "Provider list \<Rightarrow> string list \<Rightarrow> visit_state \<Rightarrow> Provider \<Rightarrow> bool" where
  "enters ps path st q \<longleftrightarrow>
     q \<in> set ps \<and> follows_deps ps path \<and> distinct path \<and>
     (\<forall>k. inStack st k \<longleftrightarrow> k \<in> set path) \<and>
     (path = [] \<or> (last path, providedKey q) \<in> depends_on ps)"

definition rec_reports :: "Provider list \<Rightarrow>
    (Provider \<Rightarrow> string list \<Rightarrow> visit_state \<Rightarrow> visit_result) \<Rightarrow> bool" where
  "rec_reports ps rec \<longleftrightarrow>
     (\<forall>q path st e. enters ps path st q \<longrightarrow> rec q path st = Some (Inl e) \<longrightarrow>
        reports_from ps (path @ [providedKey q]) e)"

definition root_report :: "Provider list \<Rightarrow> string list \<Rightarrow> analyze_error \<Rightarrow> bool" where
  "root_report ps ks e \<longleftrightarrow>
     (\<exists>before k after. ks = before @ k # after \<and>
        (\<forall>k'\<in>set before. \<not> reaches_cycle ps k') \<and> reports_from ps [k] e)"

definition roots_done ::
  "Provider list \<Rightarrow> (string \<rightharpoonup> Provider) \<Rightarrow> string list \<Rightarrow> analyze_error + visit_state \<Rightarrow> bool" where
  "roots_done ps byType ks r =
     (case r of
        Inl e \<Rightarrow> root_report ps ks e
      | Inr st \<Rightarrow> state_inv byType st \<and> inStack st = (\<lambda>_. False) \<and>
                 (\<forall>k\<in>set ks. \<not> reaches_cycle ps k))"

text \<open>
  The alias of a path as the specification words it. \<open>spec_rank\<close>: how many paths of the set
  come before the path in lexicographic order and resolve to the same short name.
  \<open>spec_alias\<close>: the empty alias at rank 0, the short name suffixed with the rank otherwise.
\<close>

definition spec_rank :: "(string \<Rightarrow> string) \<Rightarrow> string set \<Rightarrow> string \<Rightarrow> nat" where
  "spec_rank resolver S p = card {q \<in> S. q < p \<and> resolver q = resolver p}"

definition spec_alias :: "(string \<Rightarrow> string) \<Rightarrow> string set \<Rightarrow> string \<Rightarrow> string" where
  "spec_alias resolver S p =
     (if spec_rank resolver S p = 0 then ''''
      else resolver p @ string_of_nat (spec_rank resolver S p))"

text \<open>
  \<open>alias_for\<close> is the alias that the loop stores at a count. \<open>nat_of_digits\<close> reads a decimal
  numeral back; it shows that \<open>string_of_nat\<close> is injective.
\<close>

definition alias_for :: "(string \<Rightarrow> string) \<Rightarrow> string \<Rightarrow> nat \<Rightarrow> string" where
  "alias_for resolver p k = (if k = 0 then '''' else resolver p @ string_of_nat k)"



text \<open>
  Paths by their segments. \<open>is_digit\<close>: a decimal digit. \<open>path_segments\<close>: the segments of a
  path, at least one, none with a separator in it, the last one not empty; the path itself
  is \<open>Join segs "/"\<close>. \<open>plain_segment\<close>: a segment that \<open>Clean\<close> keeps as it is.
\<close>

definition is_digit :: "char \<Rightarrow> bool" where
  "is_digit c \<longleftrightarrow> CHR ''0'' \<le> c \<and> c \<le> CHR ''9''"

definition path_segments :: "string list \<Rightarrow> bool" where
  "path_segments segs \<longleftrightarrow>
     segs \<noteq> [] \<and> (\<forall>s\<in>set segs. CHR ''/'' \<notin> set s) \<and> last segs \<noteq> ''''"

definition plain_segment :: "string \<Rightarrow> bool" where
  "plain_segment s \<longleftrightarrow> s \<noteq> '''' \<and> s \<noteq> ''.'' \<and> s \<noteq> ''..''"


section \<open>Index build and duplicate detection\<close>

lemma providedKey_fold [simp]: "Key (ProvidedType p) = providedKey p"
  by (simp add: providedKey_def)

lemma indexed_empty: "indexed Map.empty []"
  by (simp add: indexed_def)

lemma indexed_lookup:
  assumes "indexed m seen" "m k = Some q"
  shows "q \<in> set seen \<and> providedKey q = k"
proof -
  from assms have "k \<in> providedKey ` set seen" by (auto simp: indexed_def)
  then obtain q' where q': "q' \<in> set seen" "providedKey q' = k" by auto
  with assms have "m k = Some q'" by (auto simp: indexed_def)
  with assms q' show ?thesis by simp
qed

lemma indexed_snoc:
  assumes "indexed m seen" "m (providedKey p) = None"
  shows "indexed (m(providedKey p \<mapsto> p)) (seen @ [p])"
proof -
  from assms have notin: "providedKey p \<notin> providedKey ` set seen"
    by (auto simp: indexed_def)
  then have neq: "providedKey q \<noteq> providedKey p" if "q \<in> set seen" for q
    using that by (metis imageI)
  have "distinct (map providedKey (seen @ [p]))"
    using notin assms(1) by (simp add: indexed_def)
  moreover have "dom (m(providedKey p \<mapsto> p)) = providedKey ` set (seen @ [p])"
    using assms(1) by (simp add: indexed_def)
  moreover have "\<forall>q\<in>set (seen @ [p]). (m(providedKey p \<mapsto> p)) (providedKey q) = Some q"
    using assms(1) neq by (simp add: indexed_def)
  ultimately show ?thesis unfolding indexed_def by blast
qed

lemma indexProviders_duplicate:
  assumes "indexed m seen" "\<not> distinct (map providedKey (seen @ ps))"
  shows "\<exists>i j. i < j \<and> j < length (seen @ ps) \<and>
           distinct (map providedKey (take j (seen @ ps))) \<and>
           providedKey ((seen @ ps) ! i) = providedKey ((seen @ ps) ! j) \<and>
           indexProviders m ps =
             Inl (DuplicateProvider (providedKey ((seen @ ps) ! j))
                    (Name_P ((seen @ ps) ! i)) (Name_P ((seen @ ps) ! j)))"
  using assms
proof (induction ps arbitrary: m seen)
  case Nil
  then show ?case by (simp add: indexed_def)
next
  case (Cons p ps)
  show ?case
  proof (cases "m (providedKey p)")
    case None
    have "indexed (m(providedKey p \<mapsto> p)) (seen @ [p])"
      using Cons.prems(1) None by (rule indexed_snoc)
    moreover have "\<not> distinct (map providedKey ((seen @ [p]) @ ps))"
      using Cons.prems(2) by simp
    ultimately obtain i j where ij: "i < j" "j < length ((seen @ [p]) @ ps)"
        "distinct (map providedKey (take j ((seen @ [p]) @ ps)))"
        "providedKey (((seen @ [p]) @ ps) ! i) = providedKey (((seen @ [p]) @ ps) ! j)"
        "indexProviders (m(providedKey p \<mapsto> p)) ps =
           Inl (DuplicateProvider (providedKey (((seen @ [p]) @ ps) ! j))
                  (Name_P (((seen @ [p]) @ ps) ! i)) (Name_P (((seen @ [p]) @ ps) ! j)))"
      using Cons.IH by blast
    have step: "indexProviders m (p # ps) = indexProviders (m(providedKey p \<mapsto> p)) ps"
      using None by (simp add: Let_def)
    have app: "(seen @ [p]) @ ps = seen @ p # ps" by simp
    show ?thesis
      using ij unfolding step app by blast
  next
    case (Some dup)
    from indexed_lookup [OF Cons.prems(1) Some]
    have dup: "dup \<in> set seen" "providedKey dup = providedKey p" by simp_all
    then obtain i where i: "i < length seen" "seen ! i = dup"
      by (auto simp: in_set_conv_nth)
    have "distinct (map providedKey (take (length seen) (seen @ p # ps)))"
      using Cons.prems(1) by (simp add: indexed_def)
    moreover have "(seen @ p # ps) ! i = dup" using i by (simp add: nth_append)
    moreover have "(seen @ p # ps) ! length seen = p" by simp
    ultimately show ?thesis using i dup Some
      by (intro exI [of _ i] exI [of _ "length seen"]) (simp add: Let_def)
  qed
qed

lemma indexProviders_success:
  assumes "indexed m seen" "distinct (map providedKey (seen @ ps))"
  shows "\<exists>byType. indexProviders m ps = Inr byType \<and> indexed byType (seen @ ps)"
  using assms
proof (induction ps arbitrary: m seen)
  case Nil
  then show ?case by simp
next
  case (Cons p ps)
  have "providedKey p \<notin> providedKey ` set seen" using Cons.prems(2) by auto
  with Cons.prems(1) have None: "m (providedKey p) = None"
    by (auto simp: indexed_def)
  have "indexed (m(providedKey p \<mapsto> p)) (seen @ [p])"
    using Cons.prems(1) None by (rule indexed_snoc)
  moreover have "distinct (map providedKey ((seen @ [p]) @ ps))"
    using Cons.prems(2) by simp
  ultimately obtain byType where
      "indexProviders (m(providedKey p \<mapsto> p)) ps = Inr byType"
      "indexed byType ((seen @ [p]) @ ps)"
    using Cons.IH by blast
  moreover have "indexProviders m (p # ps) = indexProviders (m(providedKey p \<mapsto> p)) ps"
    using None by (simp add: Let_def)
  ultimately show ?case by simp
qed

lemma indexProviders_Inr_iff:
  "(\<exists>byType. indexProviders Map.empty ps = Inr byType) \<longleftrightarrow> distinct (map providedKey ps)"
proof
  assume "\<exists>byType. indexProviders Map.empty ps = Inr byType"
  then show "distinct (map providedKey ps)"
    using indexProviders_duplicate [OF indexed_empty, of ps] by fastforce
next
  assume "distinct (map providedKey ps)"
  then show "\<exists>byType. indexProviders Map.empty ps = Inr byType"
    using indexProviders_success [OF indexed_empty, of ps] by auto
qed

lemma indexProviders_indexed:
  assumes "indexProviders Map.empty ps = Inr byType"
  shows "indexed byType ps"
proof -
  from assms have "distinct (map providedKey ps)"
    using indexProviders_Inr_iff by blast
  from indexProviders_success [OF indexed_empty, of ps] this assms
  show ?thesis by auto
qed

text \<open>
  C4. When two providers of the ParseResult provide the same key, \<open>Analyze\<close> returns a
  duplicate-provider error and no result, whatever the declaration order: the error names
  the key and the two providers of the first conflict met, the provider at the first
  position \<open>j\<close> whose key occurred before and the earlier provider \<open>i\<close> of that key.
\<close>

theorem Analyze_duplicate_provider:
  assumes "a < b" "b < length (Providers parsed)"
    and "providedKey (Providers parsed ! a) = providedKey (Providers parsed ! b)"
  shows "\<exists>i j. i < j \<and> j < length (Providers parsed) \<and>
           distinct (map providedKey (take j (Providers parsed))) \<and>
           providedKey (Providers parsed ! i) = providedKey (Providers parsed ! j) \<and>
           Analyze parsed resolver =
             Some (Inl (DuplicateProvider (providedKey (Providers parsed ! j))
                          (Name_P (Providers parsed ! i)) (Name_P (Providers parsed ! j))))"
proof -
  have "\<not> distinct (map providedKey (Providers parsed))"
  proof
    assume "distinct (map providedKey (Providers parsed))"
    from nth_eq_iff_index_eq [OF this, of a b] assms show False by simp
  qed
  then obtain i j where ij: "i < j" "j < length (Providers parsed)"
      "distinct (map providedKey (take j (Providers parsed)))"
      "providedKey (Providers parsed ! i) = providedKey (Providers parsed ! j)"
      "indexProviders Map.empty (Providers parsed) =
         Inl (DuplicateProvider (providedKey (Providers parsed ! j))
                (Name_P (Providers parsed ! i)) (Name_P (Providers parsed ! j)))"
    using indexProviders_duplicate [OF indexed_empty, of "Providers parsed"] by auto
  have "Analyze parsed resolver =
          Some (Inl (DuplicateProvider (providedKey (Providers parsed ! j))
                       (Name_P (Providers parsed ! i)) (Name_P (Providers parsed ! j))))"
    by (simp add: Analyze_def ij(5))
  with ij show ?thesis by blast
qed

lemmas fixture_defs =
  parseResultOf_def providerOf_def depOn_def typeNamed_def zeroProvider_def zeroTypeRef_def
  zeroInvocation_def

theorem Analyze_duplicate_provider_witness:
  "(0::nat) < 1 \<and>
   1 < length (Providers (parseResultOf [providerOf ''Config'' [],
                 (providerOf ''Config'' [])\<lparr>Name_P := ''NewConfig''\<rparr>] [])) \<and>
   Analyze (parseResultOf [providerOf ''Config'' [],
              (providerOf ''Config'' [])\<lparr>Name_P := ''NewConfig''\<rparr>] []) id =
     Some (Inl (DuplicateProvider ''Config'' ''Config'' ''NewConfig''))"
proof -
  let ?parsed = "parseResultOf [providerOf ''Config'' [],
                   (providerOf ''Config'' [])\<lparr>Name_P := ''NewConfig''\<rparr>] []"
  have len: "length (Providers ?parsed) = 2" by (simp add: parseResultOf_def)
  have same: "providedKey (Providers ?parsed ! 0) = providedKey (Providers ?parsed ! 1)"
    by (simp add: providedKey_def fixture_defs)
  from Analyze_duplicate_provider [of 0 1 ?parsed id] len same
  obtain i j where ij: "i < j" "j < 2"
    and res: "Analyze ?parsed id =
           Some (Inl (DuplicateProvider (providedKey (Providers ?parsed ! j))
                        (Name_P (Providers ?parsed ! i)) (Name_P (Providers ?parsed ! j))))"
    by auto
  from ij have "i = 0" "j = 1" by auto
  with res have "Analyze ?parsed id =
      Some (Inl (DuplicateProvider ''Config'' ''Config'' ''NewConfig''))"
    by (simp add: providedKey_def Key_def fixture_defs)
  with len show ?thesis by simp
qed


section \<open>Completeness validation\<close>

lemma missingProviderDeps_eq:
  "missingProviderDeps byType name deps missing =
     missing @ map (\<lambda>dep. missing_entry (name, Key (Type dep)))
                 (filter (\<lambda>dep. byType (Key (Type dep)) = None) deps)"
  by (induction deps arbitrary: missing) (simp_all add: missing_entry_def)

lemma missingInvocationDeps_eq:
  "missingInvocationDeps byType name deps missing =
     missing @ map (\<lambda>dep. missing_entry (name, Key dep))
                 (filter (\<lambda>dep. byType (Key dep) = None) deps)"
  by (induction deps arbitrary: missing) (simp_all add: missing_entry_def)

lemma missingProviders_eq:
  "missingProviders byType ps missing =
     missing @ concat (map (\<lambda>p. map (\<lambda>dep. missing_entry (Name_P p, Key (Type dep)))
                                  (filter (\<lambda>dep. byType (Key (Type dep)) = None)
                                     (Dependencies_P p))) ps)"
  by (induction ps arbitrary: missing) (simp_all add: missingProviderDeps_eq)

lemma missingInvocations_eq:
  "missingInvocations byType invs missing =
     missing @ concat (map (\<lambda>iv. map (\<lambda>dep. missing_entry (Name_I iv, Key dep))
                                   (filter (\<lambda>dep. byType (Key dep) = None)
                                      (Dependencies_I iv))) invs)"
  by (induction invs arbitrary: missing) (simp_all add: missingInvocationDeps_eq)

lemma indexed_None_iff:
  assumes "indexed byType ps"
  shows "byType k = None \<longleftrightarrow> k \<notin> providedKey ` set ps"
  using assms by (auto simp: indexed_def)

lemma missing_all_eq:
  assumes "indexed byType ps"
  shows "missingInvocations byType invs (missingProviders byType ps []) =
           map missing_entry (spec_unmet_references ps invs)"
  by (simp add: missingInvocations_eq missingProviders_eq spec_unmet_references_def
      indexed_None_iff [OF assms] map_concat comp_def)

text \<open>
  C3. For a ParseResult without duplicate provider keys: when some dependency of a provider
  or some required type of an invocation has a key that no provider provides, \<open>Analyze\<close>
  fails with one missing-dependency error that lists every unmet reference, each entry
  naming the requester and the unmet key; when there is none, the validation passes.
\<close>

theorem Analyze_missing_dependencies:
  assumes "distinct (map providedKey (Providers parsed))"
  shows "(spec_unmet_references (Providers parsed) (Invocations parsed) \<noteq> [] \<longrightarrow>
            Analyze parsed resolver =
              Some (Inl (MissingDependencies
                (map missing_entry
                   (spec_unmet_references (Providers parsed) (Invocations parsed)))))) \<and>
         (spec_unmet_references (Providers parsed) (Invocations parsed) = [] \<longrightarrow>
            (\<exists>byType. indexProviders Map.empty (Providers parsed) = Inr byType \<and>
               validateDeps (Providers parsed) (Invocations parsed) byType = None))"
proof -
  from assms obtain byType where bt: "indexProviders Map.empty (Providers parsed) = Inr byType"
    using indexProviders_Inr_iff by blast
  then have "indexed byType (Providers parsed)" by (rule indexProviders_indexed)
  note eq = missing_all_eq [OF this, of "Invocations parsed"]
  show ?thesis
    by (simp add: Analyze_def bt validateDeps_def eq Let_def)
qed

theorem Analyze_missing_dependencies_witness:
  "distinct (map providedKey (Providers (parseResultOf [providerOf ''A'' [''X'', ''Y'']]
       [zeroInvocation\<lparr>Name_I := ''run'', Dependencies_I := [typeNamed ''Z'', typeNamed ''A'']\<rparr>])))
   \<and> Analyze (parseResultOf [providerOf ''A'' [''X'', ''Y'']]
       [zeroInvocation\<lparr>Name_I := ''run'', Dependencies_I := [typeNamed ''Z'', typeNamed ''A'']\<rparr>]) id =
     Some (Inl (MissingDependencies [''A requires X'', ''A requires Y'', ''run requires Z'']))
   \<and> distinct (map providedKey (Providers (parseResultOf [providerOf ''A'' []]
       [zeroInvocation\<lparr>Name_I := ''run'', Dependencies_I := [typeNamed ''A'']\<rparr>])))
   \<and> (\<exists>byType. indexProviders Map.empty [providerOf ''A'' []] = Inr byType \<and>
         validateDeps [providerOf ''A'' []]
           [zeroInvocation\<lparr>Name_I := ''run'', Dependencies_I := [typeNamed ''A'']\<rparr>] byType = None)"
proof -
  let ?bad = "parseResultOf [providerOf ''A'' [''X'', ''Y'']]
       [zeroInvocation\<lparr>Name_I := ''run'', Dependencies_I := [typeNamed ''Z'', typeNamed ''A'']\<rparr>]"
  let ?good = "parseResultOf [providerOf ''A'' []]
       [zeroInvocation\<lparr>Name_I := ''run'', Dependencies_I := [typeNamed ''A'']\<rparr>]"
  have d1: "distinct (map providedKey (Providers ?bad))" by (simp add: parseResultOf_def)
  have d2: "distinct (map providedKey (Providers ?good))" by (simp add: parseResultOf_def)
  have u1: "spec_unmet_references (Providers ?bad) (Invocations ?bad) =
      [(''A'', ''X''), (''A'', ''Y''), (''run'', ''Z'')]"
    by (simp add: spec_unmet_references_def providedKey_def Key_def fixture_defs)
  have u2: "spec_unmet_references (Providers ?good) (Invocations ?good) = []"
    by (simp add: spec_unmet_references_def providedKey_def Key_def fixture_defs)
  have r1: "Analyze ?bad id =
      Some (Inl (MissingDependencies [''A requires X'', ''A requires Y'', ''run requires Z'']))"
    using Analyze_missing_dependencies [OF d1, of id] unfolding u1
    by (simp add: missing_entry_def)
  have r2: "\<exists>byType. indexProviders Map.empty (Providers ?good) = Inr byType \<and>
         validateDeps (Providers ?good) (Invocations ?good) byType = None"
    using Analyze_missing_dependencies [OF d2, of id] unfolding u2 by simp
  from d1 d2 r1 r2 show ?thesis by (simp add: parseResultOf_def)
qed


section \<open>The traversal keeps its invariant\<close>

lemma returns_to_refl: "state_inv byType st \<Longrightarrow> returns_to byType st st"
  by (simp add: returns_to_def)

lemma returns_to_trans:
  "returns_to byType st st1 \<Longrightarrow> returns_to byType st1 st2 \<Longrightarrow> returns_to byType st st2"
  by (simp add: returns_to_def)

lemma key_consistent_self:
  "key_consistent byType \<Longrightarrow> byType k = Some q \<Longrightarrow> byType (providedKey q) = Some q"
  by (simp add: key_consistent_def)

lemma deps_beforeD:
  assumes "deps_before byType rs" "i < length rs" "d \<in> set (Dependencies_P (rs ! i))"
    and "byType (Key (Type d)) \<noteq> None"
  shows "\<exists>j<i. providedKey (rs ! j) = Key (Type d)"
proof -
  from assms(1) have "\<forall>i<length rs. \<forall>d\<in>set (Dependencies_P (rs ! i)).
        byType (Key (Type d)) \<noteq> None \<longrightarrow> (\<exists>j<i. providedKey (rs ! j) = Key (Type d))"
    unfolding deps_before_def .
  from this [rule_format, OF assms(2,3,4)] show ?thesis .
qed

lemma deps_before_snoc:
  assumes "deps_before byType rs"
    and "\<forall>d\<in>set (Dependencies_P p). byType (Key (Type d)) \<noteq> None \<longrightarrow>
           Key (Type d) \<in> providedKey ` set rs"
  shows "deps_before byType (rs @ [p])"
  unfolding deps_before_def
proof (intro allI impI ballI)
  fix i d
  assume i: "i < length (rs @ [p])" and d: "d \<in> set (Dependencies_P ((rs @ [p]) ! i))"
    and prov: "byType (Key (Type d)) \<noteq> None"
  show "\<exists>j<i. providedKey ((rs @ [p]) ! j) = Key (Type d)"
  proof (cases "i < length rs")
    case True
    then have "(rs @ [p]) ! i = rs ! i" by (simp add: nth_append)
    with d have "d \<in> set (Dependencies_P (rs ! i))" by simp
    from deps_beforeD [OF assms(1) True this prov]
    obtain j where j: "j < i" "providedKey (rs ! j) = Key (Type d)" by (elim exE conjE)
    from j(1) True have "(rs @ [p]) ! j = rs ! j" by (simp add: nth_append)
    with j have "j < i \<and> providedKey ((rs @ [p]) ! j) = Key (Type d)" by simp
    then show ?thesis by (rule exI)
  next
    case False
    with i have i_eq: "i = length rs" by simp
    then have "(rs @ [p]) ! i = p" by simp
    with d have "d \<in> set (Dependencies_P p)" by simp
    from assms(2) [rule_format, OF this prov]
    have "Key (Type d) \<in> providedKey ` set rs" .
    then obtain q where q: "q \<in> set rs" "Key (Type d) = providedKey q" by (rule imageE)
    from q(1) obtain j where j: "j < length rs" "rs ! j = q"
      unfolding in_set_conv_nth by (elim exE conjE)
    from j(1) have "(rs @ [p]) ! j = rs ! j" by (simp add: nth_append)
    with j q(2) i_eq have "j < i \<and> providedKey ((rs @ [p]) ! j) = Key (Type d)" by simp
    then show ?thesis by (rule exI)
  qed
qed

lemma rec_returnsD:
  "rec_returns byType rec \<Longrightarrow> state_inv byType st \<Longrightarrow> byType (providedKey q) = Some q \<Longrightarrow>
   rec q path st = Some (Inr st') \<Longrightarrow> returns_to byType st st' \<and> visited st' (providedKey q)"
  unfolding rec_returns_def by blast

lemma visitDeps_returns:
  assumes "rec_returns byType rec" "key_consistent byType"
    and "state_inv byType st" "visitDeps rec byType deps path st = Some (Inr st')"
  shows "returns_to byType st st' \<and>
         (\<forall>d\<in>set deps. byType (Key (Type d)) \<noteq> None \<longrightarrow> visited st' (Key (Type d)))"
  using assms(3,4)
proof (induction deps arbitrary: st)
  case Nil
  then show ?case by (simp add: returns_to_refl)
next
  case (Cons dep deps)
  show ?case
  proof (cases "byType (Key (Type dep))")
    case None
    with Cons.prems have "visitDeps rec byType deps path st = Some (Inr st')" by simp
    from Cons.IH [OF Cons.prems(1) this] None show ?thesis by simp
  next
    case (Some q)
    with Cons.prems(2) obtain st1 where
      r1: "rec q path st = Some (Inr st1)" and
      r2: "visitDeps rec byType deps path st1 = Some (Inr st')"
      by (auto split: option.splits sum.splits)
    have kq: "providedKey q = Key (Type dep)"
      using assms(2) Some by (simp add: key_consistent_def)
    have "byType (providedKey q) = Some q"
      using assms(2) Some by (rule key_consistent_self)
    from rec_returnsD [OF assms(1) Cons.prems(1) this r1]
    have s1: "returns_to byType st st1" and v1: "visited st1 (providedKey q)" by simp_all
    from s1 have inv1: "state_inv byType st1" by (simp add: returns_to_def)
    from Cons.IH [OF inv1 r2]
    have s2: "returns_to byType st1 st'"
      and v2: "\<forall>d\<in>set deps. byType (Key (Type d)) \<noteq> None \<longrightarrow> visited st' (Key (Type d))"
      by simp_all
    from s2 v1 kq have "visited st' (Key (Type dep))" by (simp add: returns_to_def)
    with v2 returns_to_trans [OF s1 s2] show ?thesis by simp
  qed
qed

lemma visit_returns: "key_consistent byType \<Longrightarrow> rec_returns byType (visit fuel byType)"
proof (induction fuel)
  case 0
  show ?case by (simp add: rec_returns_def)
next
  case (Suc fuel)
  then have IH: "rec_returns byType (visit fuel byType)" by simp
  show ?case
    unfolding rec_returns_def
  proof (intro allI impI)
    fix p path st st'
    assume inv: "state_inv byType st" and self: "byType (providedKey p) = Some p"
      and run: "visit (Suc fuel) byType p path st = Some (Inr st')"
    let ?key = "providedKey p"
    let ?st1 = "st\<lparr>inStack := (inStack st)(?key := True)\<rparr>"
    from run have notstack: "\<not> inStack st ?key"
      by (auto simp: Let_def split: if_splits)
    show "returns_to byType st st' \<and> visited st' ?key"
    proof (cases "visited st ?key")
      case True
      with run notstack have "st' = st" by (simp add: Let_def)
      with True inv show ?thesis by (simp add: returns_to_refl)
    next
      case False
      with run notstack obtain st2 where
        deps: "visitDeps (visit fuel byType) byType (Dependencies_P p) (path @ [?key]) ?st1
                 = Some (Inr st2)" and
        st': "st' = st2\<lparr>inStack := (inStack st2)(?key := False),
                         visited := (visited st2)(?key := True),
                         result := result st2 @ [p]\<rparr>"
        by (auto simp: Let_def split: option.splits sum.splits)
      have inv1: "state_inv byType ?st1" using inv by (simp add: state_inv_def)
      from visitDeps_returns [OF IH Suc.prems inv1 deps]
      have s2: "returns_to byType ?st1 st2"
        and v2: "\<forall>d\<in>set (Dependencies_P p). byType (Key (Type d)) \<noteq> None \<longrightarrow>
                   visited st2 (Key (Type d))"
        by simp_all
      from s2 have stack2: "inStack st2 = (inStack st)(?key := True)"
        and mono2: "\<And>k. visited st k \<Longrightarrow> visited st2 k"
        and keep2: "\<And>k. inStack st k \<or> k = ?key \<Longrightarrow> visited st2 k = visited st k"
        and inv2: "state_inv byType st2"
        by (auto simp: returns_to_def)
      from keep2 [of ?key] False have fresh: "\<not> visited st2 ?key" by simp
      have stack': "inStack st' = inStack st"
        using stack2 notstack by (auto simp: st' fun_eq_iff)
      have mono': "\<forall>k. visited st k \<longrightarrow> visited st' k"
        using mono2 by (simp add: st')
      have keep': "\<forall>k. inStack st k \<longrightarrow> visited st' k = visited st k"
        using keep2 notstack by (auto simp: st')
      have inv': "state_inv byType st'"
        unfolding state_inv_def
      proof (intro conjI)
        show "\<forall>k. visited st' k = (k \<in> providedKey ` set (result st'))"
          using inv2 by (auto simp: st' state_inv_def)
        from fresh inv2 have "?key \<notin> providedKey ` set (result st2)"
          by (simp add: state_inv_def)
        with inv2 show "distinct (map providedKey (result st'))"
          by (simp add: st' state_inv_def)
        show "\<forall>q\<in>set (result st'). byType (providedKey q) = Some q"
          using inv2 self by (simp add: st' state_inv_def)
        have "\<forall>d\<in>set (Dependencies_P p). byType (Key (Type d)) \<noteq> None \<longrightarrow>
                Key (Type d) \<in> providedKey ` set (result st2)"
          using v2 inv2 by (simp add: state_inv_def)
        with inv2 have "deps_before byType (result st2 @ [p])"
          by (intro deps_before_snoc) (simp_all add: state_inv_def)
        then show "deps_before byType (result st')" by (simp add: st')
      qed
      from stack' mono' keep' inv' have "returns_to byType st st'"
        by (simp add: returns_to_def)
      then show ?thesis by (simp add: st')
    qed
  qed
qed


section \<open>The roots of the traversal and its result\<close>

lemma indexed_key_consistent: "indexed byType ps \<Longrightarrow> key_consistent byType"
  unfolding key_consistent_def using indexed_lookup by blast

lemma indexed_self: "indexed byType ps \<Longrightarrow> p \<in> set ps \<Longrightarrow> byType (providedKey p) = Some p"
  by (simp add: indexed_def)

lemma visitInvocationDeps_returns:
  assumes "rec_returns byType rec" "key_consistent byType"
    and "state_inv byType st" "visitInvocationDeps rec byType deps st = Some (Inr st')"
  shows "returns_to byType st st'"
  using assms(3,4)
proof (induction deps arbitrary: st)
  case Nil
  then show ?case by (simp add: returns_to_refl)
next
  case (Cons dep deps)
  show ?case
  proof (cases "byType (Key dep)")
    case None
    with Cons.prems have "visitInvocationDeps rec byType deps st = Some (Inr st')" by simp
    from Cons.IH [OF Cons.prems(1) this] show ?thesis .
  next
    case (Some q)
    with Cons.prems(2) obtain st1 where
      r1: "rec q [] st = Some (Inr st1)" and
      r2: "visitInvocationDeps rec byType deps st1 = Some (Inr st')"
      by (auto split: option.splits sum.splits)
    have "byType (providedKey q) = Some q"
      using assms(2) Some by (rule key_consistent_self)
    from rec_returnsD [OF assms(1) Cons.prems(1) this r1]
    have s1: "returns_to byType st st1" by simp
    then have "state_inv byType st1" by (simp add: returns_to_def)
    from Cons.IH [OF this r2] s1 show ?thesis by (blast intro: returns_to_trans)
  qed
qed

lemma visitInvocations_returns:
  assumes "rec_returns byType rec" "key_consistent byType"
    and "state_inv byType st" "visitInvocations rec byType invs st = Some (Inr st')"
  shows "returns_to byType st st'"
  using assms(3,4)
proof (induction invs arbitrary: st)
  case Nil
  then show ?case by (simp add: returns_to_refl)
next
  case (Cons iv invs)
  from Cons.prems(2) obtain st1 where
    r1: "visitInvocationDeps rec byType (Dependencies_I iv) st = Some (Inr st1)" and
    r2: "visitInvocations rec byType invs st1 = Some (Inr st')"
    by (auto split: option.splits sum.splits)
  from visitInvocationDeps_returns [OF assms(1,2) Cons.prems(1) r1]
  have s1: "returns_to byType st st1" .
  then have "state_inv byType st1" by (simp add: returns_to_def)
  from Cons.IH [OF this r2] s1 show ?case by (blast intro: returns_to_trans)
qed

lemma visitProviders_returns:
  assumes "rec_returns byType rec"
    and "\<forall>p\<in>set ps. byType (providedKey p) = Some p"
    and "state_inv byType st" "visitProviders rec ps st = Some (Inr st')"
  shows "returns_to byType st st' \<and> (\<forall>p\<in>set ps. visited st' (providedKey p))"
  using assms(2,3,4)
proof (induction ps arbitrary: st)
  case Nil
  then show ?case by (simp add: returns_to_refl)
next
  case (Cons p ps)
  from Cons.prems(3) obtain st1 where
    r1: "rec p [] st = Some (Inr st1)" and
    r2: "visitProviders rec ps st1 = Some (Inr st')"
    by (auto split: option.splits sum.splits)
  have self: "byType (providedKey p) = Some p" using Cons.prems(1) by simp
  from rec_returnsD [OF assms(1) Cons.prems(2) self r1]
  have s1: "returns_to byType st st1" and v1: "visited st1 (providedKey p)" by simp_all
  from s1 have inv1: "state_inv byType st1" by (simp add: returns_to_def)
  have rest: "\<forall>p\<in>set ps. byType (providedKey p) = Some p" using Cons.prems(1) by simp
  from Cons.IH [OF rest inv1 r2]
  have s2: "returns_to byType st1 st'" and v2: "\<forall>p\<in>set ps. visited st' (providedKey p)"
    by simp_all
  from s2 v1 have "visited st' (providedKey p)" by (simp add: returns_to_def)
  with v2 returns_to_trans [OF s1 s2] show ?case by simp
qed

lemma state_inv_initial: "state_inv byType initial_state"
  by (simp add: state_inv_def initial_state_def deps_before_def)

lemma topoSort_state:
  assumes "indexed byType ps" "topoSort fuel ps invs byType = Some (Inr out)"
  shows "distinct (map providedKey out) \<and> providedKey ` set ps \<subseteq> providedKey ` set out \<and>
         (\<forall>q\<in>set out. byType (providedKey q) = Some q) \<and> deps_before byType out"
proof -
  have kc: "key_consistent byType" using assms(1) by (rule indexed_key_consistent)
  have rr: "rec_returns byType (visit fuel byType)" using kc by (rule visit_returns)
  from assms(2) obtain st1 st2 where
    r1: "visitInvocations (visit fuel byType) byType invs initial_state = Some (Inr st1)" and
    r2: "visitProviders (visit fuel byType) ps st1 = Some (Inr st2)" and
    out: "out = result st2"
    by (auto simp: topoSort_def split: option.splits sum.splits)
  from visitInvocations_returns [OF rr kc state_inv_initial r1]
  have "state_inv byType st1" by (simp add: returns_to_def)
  moreover have "\<forall>p\<in>set ps. byType (providedKey p) = Some p"
    using assms(1) by (simp add: indexed_def)
  ultimately have "returns_to byType st1 st2" and all: "\<forall>p\<in>set ps. visited st2 (providedKey p)"
    using visitProviders_returns [OF rr _ _ r2] by blast+
  then have inv2: "state_inv byType st2" by (simp add: returns_to_def)
  from all inv2 have "providedKey ` set ps \<subseteq> providedKey ` set out"
    by (auto simp: state_inv_def out)
  with inv2 show ?thesis by (simp add: state_inv_def out)
qed

lemma topoSort_set:
  assumes "indexed byType ps" "topoSort fuel ps invs byType = Some (Inr out)"
  shows "set out = set ps \<and> distinct out \<and> distinct ps"
proof -
  from topoSort_state [OF assms]
  have d: "distinct (map providedKey out)"
    and cover: "providedKey ` set ps \<subseteq> providedKey ` set out"
    and idx: "\<forall>q\<in>set out. byType (providedKey q) = Some q"
    by simp_all
  have sub: "set out \<subseteq> set ps"
  proof
    fix q assume "q \<in> set out"
    with idx have "byType (providedKey q) = Some q" by simp
    from indexed_lookup [OF assms(1) this] show "q \<in> set ps" by simp
  qed
  have sup: "set ps \<subseteq> set out"
  proof
    fix p assume p: "p \<in> set ps"
    then have "providedKey p \<in> providedKey ` set ps" by (rule imageI)
    with cover have "providedKey p \<in> providedKey ` set out" by (rule subsetD)
    then obtain q where q: "q \<in> set out" "providedKey p = providedKey q" by (rule imageE)
    from idx q(1) have "byType (providedKey q) = Some q" by simp
    with q(2) have "byType (providedKey p) = Some q" by simp
    moreover have "byType (providedKey p) = Some p" using assms(1) p by (rule indexed_self)
    ultimately show "p \<in> set out" using q by simp
  qed
  from d have "distinct out" by (simp add: distinct_map)
  moreover from assms(1) have "distinct (map providedKey ps)" by (simp add: indexed_def)
  then have "distinct ps" by (simp add: distinct_map)
  ultimately show ?thesis using sub sup by blast
qed


section \<open>The traversal returns\<close>

lemma keeps_stackD:
  "keeps_stack rec \<Longrightarrow> rec q path st = Some (Inr st') \<Longrightarrow> inStack st' = inStack st"
  unfolding keeps_stack_def by (elim allE impE) assumption+

lemma returns_onD:
  "returns_on byType S rec \<Longrightarrow> byType (providedKey q) = Some q \<Longrightarrow> inStack st = S \<Longrightarrow>
   rec q path st \<noteq> None"
  unfolding returns_on_def by (elim allE impE) assumption+

lemma fuel_leD: "fuel_le rec rec' \<Longrightarrow> rec q path st = Some r \<Longrightarrow> rec' q path st = Some r"
  unfolding fuel_le_def by (elim allE impE) assumption+

subsection \<open>The stack is restored\<close>

lemma visitDeps_keeps_stack:
  assumes "keeps_stack rec" "visitDeps rec byType deps path st = Some (Inr st')"
  shows "inStack st' = inStack st"
  using assms(2)
proof (induction deps arbitrary: st)
  case Nil
  then show ?case by simp
next
  case (Cons dep deps)
  show ?case
  proof (cases "byType (Key (Type dep))")
    case None
    with Cons.prems have "visitDeps rec byType deps path st = Some (Inr st')" by simp
    then show ?thesis by (rule Cons.IH)
  next
    case (Some q)
    with Cons.prems obtain st1 where
      r1: "rec q path st = Some (Inr st1)" and
      r2: "visitDeps rec byType deps path st1 = Some (Inr st')"
      by (auto split: option.splits sum.splits)
    from keeps_stackD [OF assms(1) r1] Cons.IH [OF r2] show ?thesis by simp
  qed
qed

lemma visit_keeps_stack: "keeps_stack (visit fuel byType)"
proof (induction fuel)
  case 0
  show ?case by (simp add: keeps_stack_def)
next
  case (Suc fuel)
  show ?case
    unfolding keeps_stack_def
  proof (intro allI impI)
    fix p path st st'
    assume run: "visit (Suc fuel) byType p path st = Some (Inr st')"
    let ?key = "providedKey p"
    from run have notstack: "\<not> inStack st ?key"
      by (auto simp: Let_def split: if_splits)
    show "inStack st' = inStack st"
    proof (cases "visited st ?key")
      case True
      with run notstack show ?thesis by (simp add: Let_def)
    next
      case False
      with run notstack obtain st2 where
        deps: "visitDeps (visit fuel byType) byType (Dependencies_P p) (path @ [?key])
                 (st\<lparr>inStack := (inStack st)(?key := True)\<rparr>) = Some (Inr st2)" and
        st': "inStack st' = (inStack st2)(?key := False)"
        by (auto simp: Let_def split: option.splits sum.splits)
      from visitDeps_keeps_stack [OF Suc deps]
      have "inStack st2 = (inStack st)(?key := True)" by simp
      with st' notstack show ?thesis by (simp add: fun_eq_iff)
    qed
  qed
qed

lemma visitInvocationDeps_keeps_stack:
  assumes "keeps_stack rec" "visitInvocationDeps rec byType deps st = Some (Inr st')"
  shows "inStack st' = inStack st"
  using assms(2)
proof (induction deps arbitrary: st)
  case Nil
  then show ?case by simp
next
  case (Cons dep deps)
  show ?case
  proof (cases "byType (Key dep)")
    case None
    with Cons.prems have "visitInvocationDeps rec byType deps st = Some (Inr st')" by simp
    then show ?thesis by (rule Cons.IH)
  next
    case (Some q)
    with Cons.prems obtain st1 where
      r1: "rec q [] st = Some (Inr st1)" and
      r2: "visitInvocationDeps rec byType deps st1 = Some (Inr st')"
      by (auto split: option.splits sum.splits)
    from keeps_stackD [OF assms(1) r1] Cons.IH [OF r2] show ?thesis by simp
  qed
qed

lemma visitInvocations_keeps_stack:
  assumes "keeps_stack rec" "visitInvocations rec byType invs st = Some (Inr st')"
  shows "inStack st' = inStack st"
  using assms(2)
proof (induction invs arbitrary: st)
  case Nil
  then show ?case by simp
next
  case (Cons iv invs)
  from Cons.prems obtain st1 where
    r1: "visitInvocationDeps rec byType (Dependencies_I iv) st = Some (Inr st1)" and
    r2: "visitInvocations rec byType invs st1 = Some (Inr st')"
    by (auto split: option.splits sum.splits)
  from visitInvocationDeps_keeps_stack [OF assms(1) r1] Cons.IH [OF r2] show ?case by simp
qed

subsection \<open>The recursion bound is never reached\<close>

lemma visitDeps_returns_on:
  assumes "keeps_stack rec" "returns_on byType S rec" "key_consistent byType" "inStack st = S"
  shows "visitDeps rec byType deps path st \<noteq> None"
  using assms(4)
proof (induction deps arbitrary: st)
  case Nil
  show ?case by simp
next
  case (Cons dep deps)
  show ?case
  proof (cases "byType (Key (Type dep))")
    case None
    with Cons.IH [OF Cons.prems] show ?thesis by simp
  next
    case (Some q)
    have self: "byType (providedKey q) = Some q"
      using assms(3) Some by (rule key_consistent_self)
    from returns_onD [OF assms(2) self Cons.prems, of path]
    obtain r where r: "rec q path st = Some r" by (cases "rec q path st") simp_all
    show ?thesis
    proof (cases r)
      case (Inl err)
      with Some r show ?thesis by simp
    next
      case (Inr st1)
      with r have r1: "rec q path st = Some (Inr st1)" by simp
      from keeps_stackD [OF assms(1) r1] Cons.prems have "inStack st1 = S" by simp
      from Cons.IH [OF this] Some r1 show ?thesis by simp
    qed
  qed
qed

lemma free_keys_push:
  assumes "finite (dom byType)" "byType k \<noteq> None" "\<not> inStack st k"
  shows "card (free_keys byType (st\<lparr>inStack := (inStack st)(k := True)\<rparr>)) <
         card (free_keys byType st)"
proof -
  have fin: "finite (free_keys byType st)" using assms(1) by (simp add: free_keys_def)
  have mem: "k \<in> free_keys byType st" using assms(2,3) by (simp add: free_keys_def dom_def)
  have "free_keys byType (st\<lparr>inStack := (inStack st)(k := True)\<rparr>) = free_keys byType st - {k}"
    by (auto simp: free_keys_def)
  with card_Diff1_less [OF fin mem] show ?thesis by (simp only:)
qed

lemma visit_enough_fuel:
  assumes "key_consistent byType" "finite (dom byType)"
  shows "byType (providedKey p) = Some p \<Longrightarrow> card (free_keys byType st) < fuel \<Longrightarrow>
         visit fuel byType p path st \<noteq> None"
proof (induction fuel arbitrary: p path st)
  case 0
  then show ?case by simp
next
  case (Suc fuel)
  let ?key = "providedKey p"
  let ?st1 = "st\<lparr>inStack := (inStack st)(?key := True)\<rparr>"
  show ?case
  proof (cases "inStack st ?key \<or> visited st ?key")
    case True
    then show ?thesis by (auto simp: Let_def)
  next
    case False
    then have notstack: "\<not> inStack st ?key" and fresh: "\<not> visited st ?key" by simp_all
    from Suc.prems(1) have "byType ?key \<noteq> None" by simp
    from free_keys_push [OF assms(2) this notstack] Suc.prems(2)
    have less: "card (free_keys byType ?st1) < fuel" by simp
    have "returns_on byType (inStack ?st1) (visit fuel byType)"
      unfolding returns_on_def
    proof (intro allI impI)
      fix q :: Provider and path' :: "string list" and st'' :: visit_state
      assume q: "byType (providedKey q) = Some q" and same: "inStack st'' = inStack ?st1"
      from same have "free_keys byType st'' = free_keys byType ?st1" by (simp add: free_keys_def)
      with less have "card (free_keys byType st'') < fuel" by simp
      with q show "visit fuel byType q path' st'' \<noteq> None" by (rule Suc.IH)
    qed
    from visitDeps_returns_on [OF visit_keeps_stack this assms(1) refl]
    have "visitDeps (visit fuel byType) byType (Dependencies_P p) (path @ [?key]) ?st1 \<noteq> None" .
    with notstack fresh show ?thesis
      by (simp add: Let_def split: option.splits sum.splits)
  qed
qed

lemma visit_fuel_Suc: "fuel_le (visit fuel byType) (visit (Suc fuel) byType)"
proof (induction fuel)
  case 0
  show ?case by (simp add: fuel_le_def)
next
  case (Suc fuel)
  have deps: "visitDeps (visit fuel byType) byType ds path st = Some r \<Longrightarrow>
              visitDeps (visit (Suc fuel) byType) byType ds path st = Some r" for ds path st r
  proof (induction ds arbitrary: st)
    case Nil
    then show ?case by simp
  next
    case (Cons dep ds)
    show ?case
    proof (cases "byType (Key (Type dep))")
      case None
      with Cons show ?thesis by simp
    next
      case (Some q)
      with Cons.prems obtain r1 where r1: "visit fuel byType q path st = Some r1"
        by (cases "visit fuel byType q path st") (simp_all del: visit.simps)
      from fuel_leD [OF Suc r1] have r1': "visit (Suc fuel) byType q path st = Some r1" .
      show ?thesis
      proof (cases r1)
        case (Inl err)
        with Cons.prems Some r1 have "r = Inl err" by (simp del: visit.simps)
        with Some r1' Inl show ?thesis by (simp del: visit.simps)
      next
        case (Inr st1)
        with Cons.prems Some r1 have "visitDeps (visit fuel byType) byType ds path st1 = Some r"
          by (simp del: visit.simps)
        from Cons.IH [OF this] Some r1' Inr show ?thesis by (simp del: visit.simps)
      qed
    qed
  qed
  show ?case
    unfolding fuel_le_def
  proof (intro allI impI)
    fix p path st r
    assume run: "visit (Suc fuel) byType p path st = Some r"
    let ?key = "providedKey p"
    let ?st1 = "st\<lparr>inStack := (inStack st)(?key := True)\<rparr>"
    show "visit (Suc (Suc fuel)) byType p path st = Some r"
    proof (cases "inStack st ?key \<or> visited st ?key")
      case True
      with run show ?thesis by (auto simp: Let_def)
    next
      case False
      then have ns: "\<not> inStack st ?key" "\<not> visited st ?key" by simp_all
      with run obtain r1 where
        r1: "visitDeps (visit fuel byType) byType (Dependencies_P p) (path @ [?key]) ?st1 = Some r1"
        by (cases "visitDeps (visit fuel byType) byType (Dependencies_P p) (path @ [?key]) ?st1")
           (simp_all add: Let_def)
      from deps [OF r1] run r1 ns show ?thesis
        by (simp add: Let_def)
    qed
  qed
qed

lemma visit_fuel_mono:
  assumes "fuel \<le> fuel'" "visit fuel byType p path st = Some r"
  shows "visit fuel' byType p path st = Some r"
  using assms
proof (induction fuel' arbitrary: fuel)
  case 0
  then show ?case by simp
next
  case (Suc fuel')
  show ?case
  proof (cases "fuel = Suc fuel'")
    case True
    with Suc.prems show ?thesis by simp
  next
    case False
    with Suc.prems have "fuel \<le> fuel'" by simp
    from Suc.IH [OF this Suc.prems(2)] have "visit fuel' byType p path st = Some r" .
    from fuel_leD [OF visit_fuel_Suc this] show ?thesis .
  qed
qed


lemma visitInvocationDeps_returns_on:
  assumes "keeps_stack rec" "returns_on byType S rec" "key_consistent byType" "inStack st = S"
  shows "visitInvocationDeps rec byType deps st \<noteq> None"
  using assms(4)
proof (induction deps arbitrary: st)
  case Nil
  show ?case by simp
next
  case (Cons dep deps)
  show ?case
  proof (cases "byType (Key dep)")
    case None
    with Cons.IH [OF Cons.prems] show ?thesis by simp
  next
    case (Some q)
    have self: "byType (providedKey q) = Some q"
      using assms(3) Some by (rule key_consistent_self)
    from returns_onD [OF assms(2) self Cons.prems, of "[]"]
    obtain r where r: "rec q [] st = Some r" by (cases "rec q [] st") simp_all
    show ?thesis
    proof (cases r)
      case (Inl err)
      with Some r show ?thesis by simp
    next
      case (Inr st1)
      with r have r1: "rec q [] st = Some (Inr st1)" by simp
      from keeps_stackD [OF assms(1) r1] Cons.prems have "inStack st1 = S" by simp
      from Cons.IH [OF this] Some r1 show ?thesis by simp
    qed
  qed
qed

lemma visitInvocations_returns_on:
  assumes "keeps_stack rec" "returns_on byType S rec" "key_consistent byType" "inStack st = S"
  shows "visitInvocations rec byType invs st \<noteq> None"
  using assms(4)
proof (induction invs arbitrary: st)
  case Nil
  show ?case by simp
next
  case (Cons iv invs)
  from visitInvocationDeps_returns_on [OF assms(1,2,3) Cons.prems, of "Dependencies_I iv"]
  obtain r where r: "visitInvocationDeps rec byType (Dependencies_I iv) st = Some r"
    by (cases "visitInvocationDeps rec byType (Dependencies_I iv) st") simp_all
  show ?case
  proof (cases r)
    case (Inl err)
    with r show ?thesis by simp
  next
    case (Inr st1)
    with r have r1: "visitInvocationDeps rec byType (Dependencies_I iv) st = Some (Inr st1)"
      by simp
    from visitInvocationDeps_keeps_stack [OF assms(1) r1] Cons.prems
    have "inStack st1 = S" by simp
    from Cons.IH [OF this] r1 show ?thesis by simp
  qed
qed

lemma visitProviders_returns_on:
  assumes "keeps_stack rec" "returns_on byType S rec"
  shows "\<forall>p\<in>set ps. byType (providedKey p) = Some p \<Longrightarrow> inStack st = S \<Longrightarrow>
         visitProviders rec ps st \<noteq> None"
proof (induction ps arbitrary: st)
  case Nil
  show ?case by simp
next
  case (Cons p ps)
  from Cons.prems(1) have self: "byType (providedKey p) = Some p" by simp
  from Cons.prems(1) have rest: "\<forall>p\<in>set ps. byType (providedKey p) = Some p" by simp
  from returns_onD [OF assms(2) self Cons.prems(2), of "[]"]
  obtain r where r: "rec p [] st = Some r" by (cases "rec p [] st") simp_all
  show ?case
  proof (cases r)
    case (Inl err)
    with r show ?thesis by simp
  next
    case (Inr st1)
    with r have r1: "rec p [] st = Some (Inr st1)" by simp
    from keeps_stackD [OF assms(1) r1] Cons.prems(2) have "inStack st1 = S" by simp
    from Cons.IH [OF rest this] r1 show ?thesis by simp
  qed
qed

lemma indexed_card: "indexed byType ps \<Longrightarrow> finite (dom byType) \<and> card (dom byType) \<le> length ps"
proof -
  assume "indexed byType ps"
  then have dom: "dom byType = providedKey ` set ps" by (simp add: indexed_def)
  have "card (providedKey ` set ps) \<le> card (set ps)" by (rule card_image_le) simp
  also have "\<dots> \<le> length ps" by (rule card_length)
  finally show ?thesis using dom by simp
qed

lemma topoSort_returns:
  assumes "indexed byType ps" "length ps < fuel"
  shows "topoSort fuel ps invs byType \<noteq> None"
proof -
  have kc: "key_consistent byType" using assms(1) by (rule indexed_key_consistent)
  from indexed_card [OF assms(1)] have fin: "finite (dom byType)"
    and small: "card (dom byType) \<le> length ps" by simp_all
  have ro: "returns_on byType (\<lambda>_. False) (visit fuel byType)"
    unfolding returns_on_def
  proof (intro allI impI)
    fix q :: Provider and path :: "string list" and st :: visit_state
    assume q: "byType (providedKey q) = Some q" and empty: "inStack st = (\<lambda>_. False)"
    from empty have "free_keys byType st = dom byType" by (simp add: free_keys_def)
    with small assms(2) have "card (free_keys byType st) < fuel" by simp
    with q show "visit fuel byType q path st \<noteq> None" by (rule visit_enough_fuel [OF kc fin])
  qed
  have init: "inStack initial_state = (\<lambda>_. False)" by (simp add: initial_state_def)
  from visitInvocations_returns_on [OF visit_keeps_stack ro kc init, of invs]
  obtain r where r: "visitInvocations (visit fuel byType) byType invs initial_state = Some r"
    by (cases "visitInvocations (visit fuel byType) byType invs initial_state") simp_all
  show ?thesis
  proof (cases r)
    case (Inl err)
    with r show ?thesis by (simp add: topoSort_def)
  next
    case (Inr st1)
    with r have r1: "visitInvocations (visit fuel byType) byType invs initial_state
                       = Some (Inr st1)" by simp
    from visitInvocations_keeps_stack [OF visit_keeps_stack r1] init
    have st1: "inStack st1 = (\<lambda>_. False)" by simp
    have all: "\<forall>p\<in>set ps. byType (providedKey p) = Some p"
      using assms(1) by (simp add: indexed_def)
    from visitProviders_returns_on [OF visit_keeps_stack ro all st1]
    obtain r' where "visitProviders (visit fuel byType) ps st1 = Some r'"
      by (cases "visitProviders (visit fuel byType) ps st1") simp_all
    with r1 show ?thesis by (cases r') (simp_all add: topoSort_def)
  qed
qed

theorem Analyze_returns: "\<exists>res. Analyze parsed resolver = Some res"
proof (cases "indexProviders Map.empty (Providers parsed)")
  case (Inl err)
  then show ?thesis by (simp add: Analyze_def)
next
  case (Inr byType)
  then have idx: "indexed byType (Providers parsed)" by (rule indexProviders_indexed)
  show ?thesis
  proof (cases "validateDeps (Providers parsed) (Invocations parsed) byType")
    case (Some err)
    with Inr show ?thesis by (simp add: Analyze_def)
  next
    case None
    from topoSort_returns [OF idx, of "Suc (length (Providers parsed))" "Invocations parsed"]
    obtain t where t: "topoSort (Suc (length (Providers parsed))) (Providers parsed)
                         (Invocations parsed) byType = Some t"
      by (cases "topoSort (Suc (length (Providers parsed))) (Providers parsed)
                         (Invocations parsed) byType") simp_all
    with Inr None show ?thesis by (cases t) (simp_all add: Analyze_def Let_def)
  qed
qed


section \<open>Name disambiguation\<close>

lemma resolveVarNames_loop_length:
  "length (resolveVarNames_loop u ps) = length ps"
  by (induction ps arbitrary: u) (simp_all add: Let_def)

lemma resolveVarNames_loop_nth:
  "i < length ps \<Longrightarrow>
   resolveVarNames_loop u ps ! i =
     (let base = VarName (ps ! i);
          k = u base + count_list (map VarName (take i ps)) base
      in if k = 0 then ps ! i else (ps ! i)\<lparr>VarName := base @ string_of_nat k\<rparr>)"
proof (induction ps arbitrary: u i)
  case Nil
  then show ?case by simp
next
  case (Cons p ps)
  show ?case
  proof (cases i)
    case 0
    then show ?thesis by (simp add: Let_def)
  next
    case (Suc j)
    with Cons.prems have j: "j < length ps" by simp
    define u' where "u' = u(VarName p := u (VarName p) + 1)"
    have step: "resolveVarNames_loop u (p # ps) ! i = resolveVarNames_loop u' ps ! j"
      by (simp add: Suc u'_def Let_def)
    have cnt: "u' b + count_list (map VarName (take j ps)) b =
          u b + count_list (map VarName (take i (p # ps))) b" for b
      by (simp add: Suc u'_def)
    show ?thesis
      unfolding step Cons.IH [OF j, of u'] cnt
      by (simp add: Suc Let_def)
  qed
qed

text \<open>
  C6. Name disambiguation walks the provider order once. The provider at position \<open>i\<close>
  whose base variable name occurred \<open>k\<close> times at earlier positions keeps its base name
  when \<open>k = 0\<close> (first occurrence) and gets the base name followed by the decimal \<open>k\<close>
  otherwise (the \<open>k\<close>-th subsequent occurrence); nothing else of a provider changes.
\<close>

theorem resolveVarNames_kth_suffix:
  "length (resolveVarNames ps) = length ps \<and>
   (\<forall>i<length ps.
      let base = VarName (ps ! i);
          k = count_list (map VarName (take i ps)) base
      in resolveVarNames ps ! i =
           (if k = 0 then ps ! i else (ps ! i)\<lparr>VarName := base @ string_of_nat k\<rparr>))"
  by (simp add: resolveVarNames_def resolveVarNames_loop_length resolveVarNames_loop_nth)

theorem resolveVarNames_kth_suffix_witness:
  "(2::nat) < length [zeroProvider\<lparr>VarName := ''cfg''\<rparr>, zeroProvider\<lparr>VarName := ''cfg''\<rparr>,
          zeroProvider\<lparr>VarName := ''cfg''\<rparr>] \<and>
   map VarName (resolveVarNames [zeroProvider\<lparr>VarName := ''cfg''\<rparr>, zeroProvider\<lparr>VarName := ''cfg''\<rparr>,
          zeroProvider\<lparr>VarName := ''cfg''\<rparr>]) = [''cfg'', ''cfg1'', ''cfg2'']"
proof -
  let ?ps = "[zeroProvider\<lparr>VarName := ''cfg''\<rparr>, zeroProvider\<lparr>VarName := ''cfg''\<rparr>,
          zeroProvider\<lparr>VarName := ''cfg''\<rparr>]"
  note t = resolveVarNames_kth_suffix [of ?ps]
  have len: "length (resolveVarNames ?ps) = 3" using t by simp
  have n0: "VarName (resolveVarNames ?ps ! 0) = ''cfg''"
    using t [THEN conjunct2, rule_format, of 0] by (simp add: Let_def)
  have n1: "VarName (resolveVarNames ?ps ! 1) = ''cfg1''"
    using t [THEN conjunct2, rule_format, of 1] by (simp add: Let_def string_of_nat.simps digit_char_def)
  have n2: "VarName (resolveVarNames ?ps ! 2) = ''cfg2''"
    using t [THEN conjunct2, rule_format, of 2] by (simp add: Let_def string_of_nat.simps digit_char_def)
  have "map VarName (resolveVarNames ?ps) = [''cfg'', ''cfg1'', ''cfg2'']"
    using len n0 n1 n2 by (auto simp: list_eq_iff_nth_eq less_Suc_eq numeral_3_eq_3 numeral_2_eq_2)
  then show ?thesis by simp
qed


section \<open>The order returned by the analyzer\<close>

lemma providedKey_VarName_update [simp]: "providedKey (p\<lparr>VarName := v\<rparr>) = providedKey p"
  unfolding providedKey_def by simp

lemma resolveVarNames_nth_same:
  assumes "i < length ps"
  shows "providedKey (resolveVarNames ps ! i) = providedKey (ps ! i) \<and>
         Dependencies_P (resolveVarNames ps ! i) = Dependencies_P (ps ! i) \<and>
         Name_P (resolveVarNames ps ! i) = Name_P (ps ! i)"
  unfolding resolveVarNames_def resolveVarNames_loop_nth [OF assms]
  by (simp add: Let_def)

lemma resolveVarNames_length: "length (resolveVarNames ps) = length ps"
  by (simp add: resolveVarNames_def resolveVarNames_loop_length)

lemma validateDeps_None_provided:
  assumes "validateDeps ps invs byType = None" "p \<in> set ps" "d \<in> set (Dependencies_P p)"
  shows "byType (Key (Type d)) \<noteq> None"
proof -
  from assms(1) have "missingInvocations byType invs (missingProviders byType ps []) = []"
    by (simp add: validateDeps_def Let_def split: if_splits)
  then have "missingProviders byType ps [] = []"
    by (simp add: missingInvocations_eq)
  then have "\<forall>p\<in>set ps. filter (\<lambda>dep. byType (Key (Type dep)) = None) (Dependencies_P p) = []"
    by (simp add: missingProviders_eq)
  from this [rule_format, OF assms(2)] assms(3) show ?thesis
    by (simp add: filter_empty_conv)
qed

text \<open>
  C8. When the index was built from the providers of the ParseResult and \<open>topoSort\<close> returns
  a list, that list is a permutation of the input providers: every input provider occurs in
  it exactly once, whether it was reached from an invocation, from another provider or
  only as a root of its own, and no provider occurs twice.
\<close>

theorem topoSort_permutation:
  assumes "indexProviders Map.empty (Providers parsed) = Inr byType"
    and "topoSort fuel (Providers parsed) (Invocations parsed) byType = Some (Inr out)"
  shows "mset out = mset (Providers parsed) \<and> distinct out"
proof -
  from assms(1) have "indexed byType (Providers parsed)" by (rule indexProviders_indexed)
  from topoSort_set [OF this assms(2)]
  have "set out = set (Providers parsed)" "distinct out" "distinct (Providers parsed)"
    by simp_all
  then show ?thesis by (simp add: set_eq_iff_mset_eq_distinct)
qed

lemma Analyze_success:
  assumes "Analyze parsed resolver = Some (Inr r)"
  obtains byType out where
    "indexProviders Map.empty (Providers parsed) = Inr byType"
    "validateDeps (Providers parsed) (Invocations parsed) byType = None"
    "topoSort (Suc (length (Providers parsed))) (Providers parsed) (Invocations parsed) byType
       = Some (Inr out)"
    "Providers_R r = resolveVarNames out"
    "Imports r = collectImports (resolveVarNames out) (Invocations parsed)
                   (OutputImportPath parsed) resolver"
proof -
  from assms obtain byType where
    bt: "indexProviders Map.empty (Providers parsed) = Inr byType"
    by (cases "indexProviders Map.empty (Providers parsed)") (simp_all add: Analyze_def)
  from assms bt have vd: "validateDeps (Providers parsed) (Invocations parsed) byType = None"
    by (cases "validateDeps (Providers parsed) (Invocations parsed) byType")
       (simp_all add: Analyze_def)
  from assms bt vd obtain out where
    ts: "topoSort (Suc (length (Providers parsed))) (Providers parsed) (Invocations parsed) byType
       = Some (Inr out)"
    by (simp add: Analyze_def split: option.splits sum.splits)
  from assms bt vd ts have
    "r = \<lparr>Providers_R = resolveVarNames out, Invocations_R = Invocations parsed,
          PackageName = OutputPackage parsed, OutputImportPath_R = OutputImportPath parsed,
          Imports = collectImports (resolveVarNames out) (Invocations parsed)
                      (OutputImportPath parsed) resolver\<rparr>"
    by (simp add: Analyze_def Let_def)
  then have "Providers_R r = resolveVarNames out"
    "Imports r = collectImports (resolveVarNames out) (Invocations parsed)
                   (OutputImportPath parsed) resolver"
    by simp_all
  with bt vd ts show ?thesis by (rule that)
qed

text \<open>
  C1. When \<open>Analyze\<close> succeeds, the provider order it returns is a topological order of
  the depends-on relation: for the provider at position \<open>i\<close> and each dependency it declares,
  a provider of the dependency's key stands at a position before \<open>i\<close>, and every position
  that provides this key is before \<open>i\<close>.
\<close>

theorem Analyze_topological_order:
  assumes "Analyze parsed resolver = Some (Inr r)"
  shows "\<forall>i<length (Providers_R r). \<forall>d\<in>set (Dependencies_P (Providers_R r ! i)).
           (\<exists>j<i. providedKey (Providers_R r ! j) = Key (Type d)) \<and>
           (\<forall>j<length (Providers_R r). providedKey (Providers_R r ! j) = Key (Type d) \<longrightarrow> j < i)"
proof (intro allI impI ballI)
  fix i d
  assume i: "i < length (Providers_R r)" and d: "d \<in> set (Dependencies_P (Providers_R r ! i))"
  from assms obtain byType out where
    bt: "indexProviders Map.empty (Providers parsed) = Inr byType" and
    vd: "validateDeps (Providers parsed) (Invocations parsed) byType = None" and
    ts: "topoSort (Suc (length (Providers parsed))) (Providers parsed) (Invocations parsed) byType
       = Some (Inr out)" and
    r: "Providers_R r = resolveVarNames out"
    by (rule Analyze_success)
  from bt have idx: "indexed byType (Providers parsed)" by (rule indexProviders_indexed)
  from topoSort_state [OF idx ts]
  have dist: "distinct (map providedKey out)" and before: "deps_before byType out" by simp_all
  from topoSort_set [OF idx ts] have sets: "set out = set (Providers parsed)" by simp
  from i r have i': "i < length out" by (simp add: resolveVarNames_length)
  have same: "providedKey (Providers_R r ! j) = providedKey (out ! j)" if "j < length out" for j
    using resolveVarNames_nth_same [OF that] r by simp
  from d r resolveVarNames_nth_same [OF i'] have d': "d \<in> set (Dependencies_P (out ! i))" by simp
  from i' sets have "out ! i \<in> set (Providers parsed)" by (metis nth_mem)
  from validateDeps_None_provided [OF vd this d'] have "byType (Key (Type d)) \<noteq> None" .
  from deps_beforeD [OF before i' d' this]
  obtain j0 where j0: "j0 < i" "providedKey (out ! j0) = Key (Type d)" by (elim exE conjE)
  from j0(1) i' have j0': "j0 < length out" by simp
  have first: "\<exists>j<i. providedKey (Providers_R r ! j) = Key (Type d)"
  proof -
    from j0 same [OF j0'] have "j0 < i \<and> providedKey (Providers_R r ! j0) = Key (Type d)" by simp
    then show ?thesis by (rule exI)
  qed
  have second: "\<forall>j<length (Providers_R r). providedKey (Providers_R r ! j) = Key (Type d) \<longrightarrow> j < i"
  proof (intro allI impI)
    fix j assume j: "j < length (Providers_R r)"
      and eq: "providedKey (Providers_R r ! j) = Key (Type d)"
    from j r have j': "j < length out" by (simp add: resolveVarNames_length)
    from eq same [OF j'] j0(2) have "map providedKey out ! j = map providedKey out ! j0"
      using j' j0' by simp
    moreover have "j < length (map providedKey out)" "j0 < length (map providedKey out)"
      using j' j0' by simp_all
    ultimately have "j = j0" using nth_eq_iff_index_eq [OF dist, of j j0] by blast
    with j0(1) show "j < i" by simp
  qed
  from first second
  show "(\<exists>j<i. providedKey (Providers_R r ! j) = Key (Type d)) \<and>
        (\<forall>j<length (Providers_R r). providedKey (Providers_R r ! j) = Key (Type d) \<longrightarrow> j < i)"
    by (rule conjI)
qed


lemmas eval_defs =
  Analyze_def validateDeps_def topoSort_def initial_state_def Key_def Let_def fixture_defs

theorem topoSort_permutation_witness:
  "indexProviders Map.empty (Providers chain) =
     Inr [''A'' \<mapsto> providerOf ''A'' [''B''], ''B'' \<mapsto> providerOf ''B'' []] \<and>
   topoSort 3 (Providers chain) (Invocations chain)
     [''A'' \<mapsto> providerOf ''A'' [''B''], ''B'' \<mapsto> providerOf ''B'' []] =
     Some (Inr [providerOf ''B'' [], providerOf ''A'' [''B'']]) \<and>
   mset [providerOf ''B'' [], providerOf ''A'' [''B'']] = mset (Providers chain)"
proof -
  have h1: "indexProviders Map.empty (Providers chain) =
     Inr [''A'' \<mapsto> providerOf ''A'' [''B''], ''B'' \<mapsto> providerOf ''B'' []]"
    by (simp add: chain_def eval_defs)
  have h2: "topoSort 3 (Providers chain) (Invocations chain)
     [''A'' \<mapsto> providerOf ''A'' [''B''], ''B'' \<mapsto> providerOf ''B'' []] =
     Some (Inr [providerOf ''B'' [], providerOf ''A'' [''B'']])"
    by (simp add: chain_def eval_defs numeral_3_eq_3)
  from topoSort_permutation [OF h1 h2] h1 h2 show ?thesis by simp
qed

theorem Analyze_topological_order_witness:
  "\<exists>r. Analyze diamond id = Some (Inr r) \<and>
       map Name_P (Providers_R r) = [''D'', ''B'', ''C'', ''A''] \<and>
       (\<exists>j<3. providedKey (Providers_R r ! j) = ''B'')"
proof -
  let ?out = "[providerOf ''D'' [], providerOf ''B'' [''D''], providerOf ''C'' [''D''],
        providerOf ''A'' [''B'', ''C'']]"
  let ?r = "\<lparr>Providers_R = resolveVarNames ?out, Invocations_R = [],
            PackageName = ''main'', OutputImportPath_R = ''example.com/app'',
            Imports = collectImports (resolveVarNames ?out) [] ''example.com/app'' id\<rparr>"
  have run: "Analyze diamond id = Some (Inr ?r)"
    by (simp add: diamond_def eval_defs)
  have len: "length (Providers_R ?r) = 4" by (simp add: resolveVarNames_length)
  have names: "map Name_P (Providers_R ?r) = [''D'', ''B'', ''C'', ''A'']"
    by (simp add: resolveVarNames_def fixture_defs Let_def)
  have dep: "depOn ''B'' \<in> set (Dependencies_P (Providers_R ?r ! 3))"
    using resolveVarNames_nth_same [of 3 ?out] by (simp add: fixture_defs)
  have key: "Key (Type (depOn ''B'')) = ''B''" by (simp add: eval_defs)
  from Analyze_topological_order [OF run, rule_format, of 3 "depOn ''B''"] len dep key
  have ex: "\<exists>j<3. providedKey (Providers_R ?r ! j) = ''B''" by simp
  show ?thesis
    by (rule exI [of _ ?r], intro conjI, rule run, rule names, rule ex)
qed


section \<open>Cycle detection\<close>

subsection \<open>What the visitor reports\<close>

lemma rec_reportsD:
  "rec_reports ps rec \<Longrightarrow> enters ps path st q \<Longrightarrow> rec q path st = Some (Inl e) \<Longrightarrow>
   reports_from ps (path @ [providedKey q]) e"
  unfolding rec_reports_def by (elim allE impE) assumption+

lemma reports_from_prefix:
  "reports_from ps (pfx @ xs) e \<Longrightarrow> reports_from ps pfx e"
  unfolding reports_from_def
proof (elim exE conjE)
  fix rest
  assume "e = CircularDependency ((pfx @ xs) @ rest)" "follows_deps ps ((pfx @ xs) @ rest)"
    "distinct (butlast ((pfx @ xs) @ rest))"
    "last ((pfx @ xs) @ rest) \<in> set (butlast ((pfx @ xs) @ rest))"
  then have "e = CircularDependency (pfx @ (xs @ rest)) \<and> follows_deps ps (pfx @ (xs @ rest)) \<and>
    distinct (butlast (pfx @ (xs @ rest))) \<and>
    last (pfx @ (xs @ rest)) \<in> set (butlast (pfx @ (xs @ rest)))"
    by (simp only: append_assoc simp_thms)
  then show "\<exists>rest. e = CircularDependency (pfx @ rest) \<and> follows_deps ps (pfx @ rest) \<and>
    distinct (butlast (pfx @ rest)) \<and> last (pfx @ rest) \<in> set (butlast (pfx @ rest))"
    by (rule exI)
qed

lemma follows_deps_snoc:
  assumes "follows_deps ps path" "path = [] \<or> (last path, k) \<in> depends_on ps"
  shows "follows_deps ps (path @ [k])"
  unfolding follows_deps_def
proof (intro allI impI)
  fix i assume i: "Suc i < length (path @ [k])"
  show "((path @ [k]) ! i, (path @ [k]) ! Suc i) \<in> depends_on ps"
  proof (cases "Suc i < length path")
    case True
    then have "(path @ [k]) ! i = path ! i" "(path @ [k]) ! Suc i = path ! Suc i"
      by (simp_all add: nth_append)
    moreover from assms(1) True have "(path ! i, path ! Suc i) \<in> depends_on ps"
      unfolding follows_deps_def by (elim allE impE) assumption+
    ultimately show ?thesis by simp
  next
    case False
    with i have eq: "Suc i = length path" by simp
    then have ne: "path \<noteq> []" by auto
    from eq have i_eq: "i = length path - 1" by simp
    from eq have "i < length path" by simp
    then have "(path @ [k]) ! i = path ! i" by (simp add: nth_append)
    also have "\<dots> = last path" using ne i_eq by (simp add: last_conv_nth)
    finally have "(path @ [k]) ! i = last path" .
    moreover from eq have "(path @ [k]) ! Suc i = k" by simp
    moreover from assms(2) ne have "(last path, k) \<in> depends_on ps" by simp
    ultimately show ?thesis by simp
  qed
qed

lemma depends_onI:
  assumes "indexed byType ps" "p \<in> set ps" "d \<in> set (Dependencies_P p)"
    and "byType (Key (Type d)) \<noteq> None"
  shows "(providedKey p, Key (Type d)) \<in> depends_on ps"
proof -
  from assms(4) indexed_None_iff [OF assms(1), of "Key (Type d)"]
  have "Key (Type d) \<in> providedKey ` set ps" by simp
  with assms(2,3) show ?thesis unfolding depends_on_def by blast
qed

lemma visitDeps_reports:
  assumes "rec_reports ps rec" "keeps_stack rec" "indexed byType ps"
    and "p \<in> set ps" "follows_deps ps path" "distinct path" "path \<noteq> []"
    and "last path = providedKey p"
    and "set deps \<subseteq> set (Dependencies_P p)"
    and "\<forall>k. inStack st k \<longleftrightarrow> k \<in> set path"
    and "visitDeps rec byType deps path st = Some (Inl e)"
  shows "reports_from ps path e"
  using assms(9,10,11)
proof (induction deps arbitrary: st)
  case Nil
  then show ?case by simp
next
  case (Cons dep deps)
  from Cons.prems(1) have sub: "set deps \<subseteq> set (Dependencies_P p)"
    and dep: "dep \<in> set (Dependencies_P p)" by simp_all
  show ?case
  proof (cases "byType (Key (Type dep))")
    case None
    with Cons.prems(3) have "visitDeps rec byType deps path st = Some (Inl e)" by simp
    from Cons.IH [OF sub Cons.prems(2) this] show ?thesis .
  next
    case (Some q)
    from indexed_lookup [OF assms(3) Some] have q: "q \<in> set ps" "providedKey q = Key (Type dep)"
      by simp_all
    from Some have "byType (Key (Type dep)) \<noteq> None" by simp
    from depends_onI [OF assms(3,4) dep this] q(2) assms(8)
    have "(last path, providedKey q) \<in> depends_on ps" by simp
    with q(1) assms(5,6) Cons.prems(2) have ent: "enters ps path st q"
      by (simp add: enters_def)
    from Cons.prems(3) Some obtain r where r: "rec q path st = Some r"
      by (cases "rec q path st") simp_all
    show ?thesis
    proof (cases r)
      case (Inl err)
      with Cons.prems(3) Some r have "err = e" by simp
      with Inl r have "rec q path st = Some (Inl e)" by simp
      from rec_reportsD [OF assms(1) ent this] show ?thesis by (rule reports_from_prefix)
    next
      case (Inr st1)
      with r have r1: "rec q path st = Some (Inr st1)" by simp
      with Cons.prems(3) Some have rest: "visitDeps rec byType deps path st1 = Some (Inl e)"
        by simp
      from keeps_stackD [OF assms(2) r1] Cons.prems(2)
      have "\<forall>k. inStack st1 k \<longleftrightarrow> k \<in> set path" by simp
      from Cons.IH [OF sub this rest] show ?thesis .
    qed
  qed
qed

lemma visit_reports: "indexed byType ps \<Longrightarrow> rec_reports ps (visit fuel byType)"
proof (induction fuel)
  case 0
  show ?case by (simp add: rec_reports_def)
next
  case (Suc fuel)
  then have IH: "rec_reports ps (visit fuel byType)" by simp
  show ?case
    unfolding rec_reports_def
  proof (intro allI impI)
    fix p :: Provider and path :: "string list" and st :: visit_state and e
    assume ent: "enters ps path st p" and run: "visit (Suc fuel) byType p path st = Some (Inl e)"
    let ?key = "providedKey p"
    let ?st1 = "st\<lparr>inStack := (inStack st)(?key := True)\<rparr>"
    from ent have p: "p \<in> set ps" and fd: "follows_deps ps path" and dist: "distinct path"
      and stack: "\<forall>k. inStack st k \<longleftrightarrow> k \<in> set path"
      and link: "path = [] \<or> (last path, ?key) \<in> depends_on ps"
      by (simp_all add: enters_def)
    from follows_deps_snoc [OF fd link] have fd': "follows_deps ps (path @ [?key])" .
    show "reports_from ps (path @ [?key]) e"
    proof (cases "inStack st ?key")
      case True
      with run have e: "e = CircularDependency ((path @ [?key]) @ [])" by (simp add: Let_def)
      from True stack have "?key \<in> set path" by simp
      with dist fd' have "follows_deps ps ((path @ [?key]) @ []) \<and>
         distinct (butlast ((path @ [?key]) @ [])) \<and>
         last ((path @ [?key]) @ []) \<in> set (butlast ((path @ [?key]) @ []))" by simp
      with e show ?thesis unfolding reports_from_def by blast
    next
      case False
      with run have nv: "\<not> visited st ?key" by (auto simp: Let_def split: if_splits)
      with run False have
        deps: "visitDeps (visit fuel byType) byType (Dependencies_P p) (path @ [?key]) ?st1
                 = Some (Inl e)"
        by (auto simp: Let_def split: option.splits sum.splits)
      from False stack have "?key \<notin> set path" by simp
      with dist have dist': "distinct (path @ [?key])" by simp
      have stack1: "\<forall>k. inStack ?st1 k \<longleftrightarrow> k \<in> set (path @ [?key])"
        using stack by simp
      from visitDeps_reports [OF IH visit_keeps_stack Suc.prems p fd' dist' _ _ subset_refl
          stack1 deps]
      show ?thesis by simp
    qed
  qed
qed

subsection \<open>Visited keys reach no cycle\<close>

lemma depends_on_provided:
  "(a, b) \<in> depends_on ps \<Longrightarrow> a \<in> providedKey ` set ps \<and> b \<in> providedKey ` set ps"
  unfolding depends_on_def by blast

lemma reaches_cycle_provided:
  assumes "reaches_cycle ps k"
  shows "k \<in> providedKey ` set ps"
proof -
  from assms obtain c where kc: "(k, c) \<in> (depends_on ps)\<^sup>*"
    and cc: "(c, c) \<in> (depends_on ps)\<^sup>+"
    unfolding reaches_cycle_def by blast
  from cc obtain z where "(c, z) \<in> depends_on ps" by (meson tranclD)
  then have c: "c \<in> providedKey ` set ps" using depends_on_provided by blast
  from kc show ?thesis
  proof (cases rule: converse_rtranclE)
    case base
    with c show ?thesis by simp
  next
    case (step y)
    then show ?thesis using depends_on_provided by blast
  qed
qed

text \<open>
  In a list that has the dependencies of each element before it, an edge of the depends-on
  relation leads to an earlier position.
\<close>

lemma order_edge:
  assumes "indexed byType ps"
    and "\<forall>q\<in>set rs. byType (providedKey q) = Some q" "deps_before byType rs"
    and "(a, b) \<in> depends_on ps" "i < length rs" "providedKey (rs ! i) = a"
  shows "\<exists>j<i. providedKey (rs ! j) = b"
proof -
  from assms(4) obtain p d where p: "p \<in> set ps" "providedKey p = a"
    and d: "d \<in> set (Dependencies_P p)" "Key (Type d) = b"
    and b: "b \<in> providedKey ` set ps"
    unfolding depends_on_def by blast
  from assms(5) have "rs ! i \<in> set rs" by simp
  with assms(2) have "byType (providedKey (rs ! i)) = Some (rs ! i)" by (rule bspec)
  moreover from indexed_self [OF assms(1) p(1)] p(2) assms(6)
  have "byType (providedKey (rs ! i)) = Some p" by simp
  ultimately have "rs ! i = p" by simp
  with d(1) have din: "d \<in> set (Dependencies_P (rs ! i))" by simp
  from b indexed_None_iff [OF assms(1), of b] have "byType b \<noteq> None" by simp
  with d(2) have "byType (Key (Type d)) \<noteq> None" by simp
  from deps_beforeD [OF assms(3,5) din this] d(2) show ?thesis by simp
qed

lemma order_rtrancl:
  assumes "indexed byType ps"
    and "\<forall>q\<in>set rs. byType (providedKey q) = Some q" "deps_before byType rs"
    and "(a, b) \<in> (depends_on ps)\<^sup>*" "i < length rs" "providedKey (rs ! i) = a"
  shows "\<exists>j\<le>i. providedKey (rs ! j) = b"
  using assms(4)
proof (induction rule: rtrancl_induct)
  case base
  from assms(6) show ?case by blast
next
  case (step y z)
  then obtain j where j: "j \<le> i" "providedKey (rs ! j) = y" by blast
  from j(1) assms(5) have "j < length rs" by simp
  from order_edge [OF assms(1,2,3) step(2) this j(2)]
  obtain j' where "j' < j" "providedKey (rs ! j') = z" by blast
  with j(1) have "j' \<le> i \<and> providedKey (rs ! j') = z" by simp
  then show ?case by blast
qed

lemma order_trancl:
  assumes "indexed byType ps"
    and "\<forall>q\<in>set rs. byType (providedKey q) = Some q" "deps_before byType rs"
    and "(a, b) \<in> (depends_on ps)\<^sup>+" "i < length rs" "providedKey (rs ! i) = a"
  shows "\<exists>j<i. providedKey (rs ! j) = b"
proof -
  from assms(4) obtain y where ay: "(a, y) \<in> (depends_on ps)\<^sup>*" and yb: "(y, b) \<in> depends_on ps"
    by (meson tranclD2)
  from order_rtrancl [OF assms(1,2,3) ay assms(5,6)]
  obtain j where j: "j \<le> i" "providedKey (rs ! j) = y" by blast
  from j(1) assms(5) have "j < length rs" by simp
  from order_edge [OF assms(1,2,3) yb this j(2)]
  obtain j' where "j' < j" "providedKey (rs ! j') = b" by blast
  with j(1) have "j' < i \<and> providedKey (rs ! j') = b" by simp
  then show ?thesis by blast
qed

lemma order_no_cycle:
  assumes "indexed byType ps" "distinct (map providedKey rs)"
    and "\<forall>q\<in>set rs. byType (providedKey q) = Some q" "deps_before byType rs"
    and "k \<in> providedKey ` set rs"
  shows "\<not> reaches_cycle ps k"
proof
  assume "reaches_cycle ps k"
  then obtain c where kc: "(k, c) \<in> (depends_on ps)\<^sup>*"
    and cc: "(c, c) \<in> (depends_on ps)\<^sup>+"
    unfolding reaches_cycle_def by blast
  from assms(5) obtain q where "q \<in> set rs" "providedKey q = k" by (elim imageE) simp
  then obtain i where i: "i < length rs" "providedKey (rs ! i) = k"
    unfolding in_set_conv_nth by blast
  from order_rtrancl [OF assms(1,3,4) kc i]
  obtain j where j: "j \<le> i" "providedKey (rs ! j) = c" by blast
  from j(1) i(1) have jl: "j < length rs" by simp
  from order_trancl [OF assms(1,3,4) cc jl j(2)]
  obtain j' where j': "j' < j" "providedKey (rs ! j') = c" by blast
  from j' j(2) jl have "map providedKey rs ! j' = map providedKey rs ! j" by simp
  moreover have "j' < length (map providedKey rs)" "j < length (map providedKey rs)"
    using j'(1) jl by simp_all
  ultimately have "j' = j" using nth_eq_iff_index_eq [OF assms(2), of j' j] by blast
  with j'(1) show False by simp
qed

lemma visited_no_cycle:
  assumes "indexed byType ps" "state_inv byType st" "visited st k"
  shows "\<not> reaches_cycle ps k"
proof -
  from assms(2) have v: "\<forall>k. visited st k \<longleftrightarrow> k \<in> providedKey ` set (result st)"
    and d: "distinct (map providedKey (result st))"
    and i: "\<forall>q\<in>set (result st). byType (providedKey q) = Some q"
    and b: "deps_before byType (result st)"
    unfolding state_inv_def by blast+
  from v assms(3) have "k \<in> providedKey ` set (result st)" by blast
  from order_no_cycle [OF assms(1) d i b this] show ?thesis .
qed

subsection \<open>The root at which the traversal fails\<close>

lemma root_report_append_left:
  assumes "root_report ps ks e"
  shows "root_report ps (ks @ ks') e"
proof -
  from assms obtain before k after where ks: "ks = before @ k # after"
    and nb: "\<forall>k'\<in>set before. \<not> reaches_cycle ps k'" and rep: "reports_from ps [k] e"
    unfolding root_report_def by blast
  from ks have "ks @ ks' = before @ k # (after @ ks')" by simp
  with nb rep show ?thesis unfolding root_report_def by blast
qed

lemma root_report_append_right:
  assumes "\<forall>k\<in>set ks. \<not> reaches_cycle ps k" "root_report ps ks' e"
  shows "root_report ps (ks @ ks') e"
proof -
  from assms(2) obtain before k after where ks: "ks' = before @ k # after"
    and nb: "\<forall>k'\<in>set before. \<not> reaches_cycle ps k'" and rep: "reports_from ps [k] e"
    unfolding root_report_def by blast
  from ks have eq: "ks @ ks' = (ks @ before) @ k # after" by simp
  from assms(1) nb have "\<forall>k'\<in>set (ks @ before). \<not> reaches_cycle ps k'" by auto
  with eq rep show ?thesis unfolding root_report_def by blast
qed

lemma roots_done_append:
  assumes "\<forall>k\<in>set ks. \<not> reaches_cycle ps k" "roots_done ps byType ks' r"
  shows "roots_done ps byType (ks @ ks') r"
proof (cases r)
  case (Inl e)
  with assms(2) have "root_report ps ks' e" by (simp add: roots_done_def)
  from root_report_append_right [OF assms(1) this] Inl show ?thesis
    by (simp add: roots_done_def)
next
  case (Inr st)
  with assms show ?thesis by (auto simp: roots_done_def)
qed

lemma roots_done_InrD:
  "roots_done ps byType ks (Inr st) \<Longrightarrow>
   state_inv byType st \<and> inStack st = (\<lambda>_. False) \<and> (\<forall>k\<in>set ks. \<not> reaches_cycle ps k)"
  by (simp add: roots_done_def)

lemma roots_done_Inl_left:
  "roots_done ps byType ks (Inl e) \<Longrightarrow> roots_done ps byType (ks @ ks') (Inl e)"
  by (simp add: roots_done_def root_report_append_left)

lemma roots_done_Nil:
  "state_inv byType st \<Longrightarrow> inStack st = (\<lambda>_. False) \<Longrightarrow> roots_done ps byType [] (Inr st)"
  by (simp add: roots_done_def)

lemma root_single:
  assumes "rec_reports ps rec" "rec_returns byType rec" "indexed byType ps" "q \<in> set ps"
    and "state_inv byType st" "inStack st = (\<lambda>_. False)" "rec q [] st = Some r"
  shows "roots_done ps byType [providedKey q] r"
proof (cases r)
  case (Inl e)
  from assms(4,6) have "enters ps [] st q" by (simp add: enters_def follows_deps_def)
  moreover from assms(7) Inl have "rec q [] st = Some (Inl e)" by simp
  ultimately have "reports_from ps ([] @ [providedKey q]) e" by (rule rec_reportsD [OF assms(1)])
  then have "reports_from ps [providedKey q] e" by simp
  moreover have "[providedKey q] = [] @ providedKey q # []" by simp
  ultimately have "root_report ps [providedKey q] e"
    unfolding root_report_def by (metis empty_iff empty_set)
  with Inl show ?thesis by (simp add: roots_done_def)
next
  case (Inr st1)
  with assms(7) have run: "rec q [] st = Some (Inr st1)" by simp
  from rec_returnsD [OF assms(2,5) indexed_self [OF assms(3,4)] run]
  have rt: "returns_to byType st st1" and v: "visited st1 (providedKey q)" by simp_all
  from rt have inv: "state_inv byType st1" and stk: "inStack st1 = inStack st"
    by (simp_all add: returns_to_def)
  from visited_no_cycle [OF assms(3) inv v] have "\<not> reaches_cycle ps (providedKey q)" .
  with inv stk assms(6) Inr show ?thesis by (simp add: roots_done_def)
qed

lemma visitInvocationDeps_roots:
  assumes "rec_reports ps rec" "rec_returns byType rec" "indexed byType ps"
  shows "state_inv byType st \<Longrightarrow> inStack st = (\<lambda>_. False) \<Longrightarrow>
         visitInvocationDeps rec byType deps st = Some r \<Longrightarrow>
         roots_done ps byType (map Key deps) r"
proof (induction deps arbitrary: st)
  case Nil
  then have "r = Inr st" by simp
  with roots_done_Nil [OF Nil.prems(1,2)] show ?case by simp
next
  case (Cons dep deps)
  have split: "map Key (dep # deps) = [Key dep] @ map Key deps" by simp
  show ?case
  proof (cases "byType (Key dep)")
    case None
    with Cons.prems(3) have "visitInvocationDeps rec byType deps st = Some r" by simp
    from Cons.IH [OF Cons.prems(1,2) this] have rest: "roots_done ps byType (map Key deps) r" .
    from None indexed_None_iff [OF assms(3), of "Key dep"]
    have "Key dep \<notin> providedKey ` set ps" by simp
    with reaches_cycle_provided [of ps "Key dep"] have "\<not> reaches_cycle ps (Key dep)" by blast
    then have "\<forall>k\<in>set [Key dep]. \<not> reaches_cycle ps k" by simp
    from roots_done_append [OF this rest] show ?thesis unfolding split .
  next
    case (Some q)
    from indexed_lookup [OF assms(3) Some] have q: "q \<in> set ps" "providedKey q = Key dep"
      by simp_all
    from Cons.prems(3) Some obtain r1 where r1: "rec q [] st = Some r1"
      by (cases "rec q [] st") simp_all
    from root_single [OF assms q(1) Cons.prems(1,2) r1] q(2)
    have one: "roots_done ps byType [Key dep] r1" by simp
    show ?thesis
    proof (cases r1)
      case (Inl err)
      with Cons.prems(3) Some r1 have "r = Inl err" by simp
      with one Inl show ?thesis unfolding split by (simp only: roots_done_Inl_left)
    next
      case (Inr st1)
      with Cons.prems(3) Some r1 have rest: "visitInvocationDeps rec byType deps st1 = Some r"
        by simp
      from one Inr have "roots_done ps byType [Key dep] (Inr st1)" by simp
      from roots_done_InrD [OF this] have inv: "state_inv byType st1"
        and stk: "inStack st1 = (\<lambda>_. False)"
        and nc: "\<forall>k\<in>set [Key dep]. \<not> reaches_cycle ps k" by blast+
      from roots_done_append [OF nc Cons.IH [OF inv stk rest]] show ?thesis unfolding split .
    qed
  qed
qed

lemma visitInvocations_roots:
  assumes "rec_reports ps rec" "rec_returns byType rec" "indexed byType ps"
  shows "state_inv byType st \<Longrightarrow> inStack st = (\<lambda>_. False) \<Longrightarrow>
         visitInvocations rec byType invs st = Some r \<Longrightarrow>
         roots_done ps byType (concat (map (\<lambda>iv. map Key (Dependencies_I iv)) invs)) r"
proof (induction invs arbitrary: st)
  case Nil
  then have "r = Inr st" by simp
  with roots_done_Nil [OF Nil.prems(1,2)] show ?case by simp
next
  case (Cons iv invs)
  let ?ks = "map Key (Dependencies_I iv)"
  let ?rest = "concat (map (\<lambda>iv. map Key (Dependencies_I iv)) invs)"
  have split: "concat (map (\<lambda>iv. map Key (Dependencies_I iv)) (iv # invs)) = ?ks @ ?rest"
    by simp
  from Cons.prems(3) obtain r1 where
    r1: "visitInvocationDeps rec byType (Dependencies_I iv) st = Some r1"
    by (cases "visitInvocationDeps rec byType (Dependencies_I iv) st") simp_all
  from visitInvocationDeps_roots [OF assms Cons.prems(1,2) r1]
  have one: "roots_done ps byType ?ks r1" .
  show ?case
  proof (cases r1)
    case (Inl err)
    with Cons.prems(3) r1 have "r = Inl err" by simp
    with one Inl show ?thesis unfolding split by (simp only: roots_done_Inl_left)
  next
    case (Inr st1)
    with Cons.prems(3) r1 have rest: "visitInvocations rec byType invs st1 = Some r" by simp
    from one Inr have "roots_done ps byType ?ks (Inr st1)" by simp
    from roots_done_InrD [OF this] have inv: "state_inv byType st1"
      and stk: "inStack st1 = (\<lambda>_. False)"
      and nc: "\<forall>k\<in>set ?ks. \<not> reaches_cycle ps k" by blast+
    from roots_done_append [OF nc Cons.IH [OF inv stk rest]] show ?thesis unfolding split .
  qed
qed

lemma visitProviders_roots:
  assumes "rec_reports ps rec" "rec_returns byType rec" "indexed byType ps"
  shows "set qs \<subseteq> set ps \<Longrightarrow> state_inv byType st \<Longrightarrow> inStack st = (\<lambda>_. False) \<Longrightarrow>
         visitProviders rec qs st = Some r \<Longrightarrow>
         roots_done ps byType (map providedKey qs) r"
proof (induction qs arbitrary: st)
  case Nil
  then have "r = Inr st" by simp
  with roots_done_Nil [OF Nil.prems(2,3)] show ?case by simp
next
  case (Cons q qs)
  from Cons.prems(1) have q: "q \<in> set ps" and sub: "set qs \<subseteq> set ps" by simp_all
  have split: "map providedKey (q # qs) = [providedKey q] @ map providedKey qs" by simp
  from Cons.prems(4) obtain r1 where r1: "rec q [] st = Some r1"
    by (cases "rec q [] st") simp_all
  from root_single [OF assms q Cons.prems(2,3) r1]
  have one: "roots_done ps byType [providedKey q] r1" .
  show ?case
  proof (cases r1)
    case (Inl err)
    with Cons.prems(4) r1 have "r = Inl err" by simp
    with one Inl show ?thesis unfolding split by (simp only: roots_done_Inl_left)
  next
    case (Inr st1)
    with Cons.prems(4) r1 have rest: "visitProviders rec qs st1 = Some r" by simp
    from one Inr have "roots_done ps byType [providedKey q] (Inr st1)" by simp
    from roots_done_InrD [OF this] have inv: "state_inv byType st1"
      and stk: "inStack st1 = (\<lambda>_. False)"
      and nc: "\<forall>k\<in>set [providedKey q]. \<not> reaches_cycle ps k" by blast+
    from roots_done_append [OF nc Cons.IH [OF sub inv stk rest]] show ?thesis unfolding split .
  qed
qed

lemma topoSort_roots:
  assumes "indexed byType ps" "topoSort fuel ps invs byType = Some (Inl e)"
  shows "root_report ps (root_keys ps invs) e"
proof -
  let ?rec = "visit fuel byType"
  let ?iks = "concat (map (\<lambda>iv. map Key (Dependencies_I iv)) invs)"
  have rr: "rec_reports ps ?rec" using assms(1) by (rule visit_reports)
  have rt: "rec_returns byType ?rec"
    using indexed_key_consistent [OF assms(1)] by (rule visit_returns)
  have init: "inStack initial_state = (\<lambda>_. False)" by (simp add: initial_state_def)
  from assms(2) obtain r where r: "visitInvocations ?rec byType invs initial_state = Some r"
    by (cases "visitInvocations ?rec byType invs initial_state") (simp_all add: topoSort_def)
  from visitInvocations_roots [OF rr rt assms(1) state_inv_initial init r]
  have one: "roots_done ps byType ?iks r" .
  show ?thesis
  proof (cases r)
    case (Inl err)
    with assms(2) r have "err = e" by (simp add: topoSort_def)
    with one Inl have "root_report ps ?iks e" by (simp add: roots_done_def)
    then show ?thesis unfolding root_keys_def by (rule root_report_append_left)
  next
    case (Inr st1)
    with one have "roots_done ps byType ?iks (Inr st1)" by simp
    from roots_done_InrD [OF this] have inv: "state_inv byType st1"
      and stk: "inStack st1 = (\<lambda>_. False)"
      and nc: "\<forall>k\<in>set ?iks. \<not> reaches_cycle ps k" by blast+
    from assms(2) r Inr have run: "visitProviders ?rec ps st1 = Some (Inl e)"
      by (simp add: topoSort_def split: option.splits sum.splits)
    from visitProviders_roots [OF rr rt assms(1) subset_refl inv stk run]
    have "root_report ps (map providedKey ps) e" by (simp add: roots_done_def)
    from root_report_append_right [OF nc this] show ?thesis unfolding root_keys_def .
  qed
qed

subsection \<open>The analyzer on a cyclic input\<close>

lemma follows_depsD:
  "follows_deps ps xs \<Longrightarrow> Suc i < length xs \<Longrightarrow> (xs ! i, xs ! Suc i) \<in> depends_on ps"
  unfolding follows_deps_def by (elim allE impE) assumption+

lemma follows_deps_trancl:
  assumes "follows_deps ps xs"
  shows "Suc j < length xs \<Longrightarrow> (xs ! 0, xs ! Suc j) \<in> (depends_on ps)\<^sup>+"
proof (induction j)
  case 0
  from follows_depsD [OF assms 0] show ?case by (rule r_into_trancl)
next
  case (Suc j)
  then have "(xs ! 0, xs ! Suc j) \<in> (depends_on ps)\<^sup>+" by simp
  moreover from follows_depsD [OF assms Suc.prems]
  have "(xs ! Suc j, xs ! Suc (Suc j)) \<in> depends_on ps" .
  ultimately show ?case by (rule trancl_into_trancl)
qed

lemma follows_deps_drop:
  assumes "follows_deps ps (pre @ ys)"
  shows "follows_deps ps ys"
  unfolding follows_deps_def
proof (intro allI impI)
  fix i assume i: "Suc i < length ys"
  then have "Suc (length pre + i) < length (pre @ ys)" by simp
  from follows_depsD [OF assms this]
  have "((pre @ ys) ! (length pre + i), (pre @ ys) ! (Suc (length pre + i))) \<in> depends_on ps" .
  moreover have "(pre @ ys) ! (length pre + i) = ys ! i" by (simp add: nth_append)
  moreover have "(pre @ ys) ! (Suc (length pre + i)) = ys ! Suc i"
    by (simp add: nth_append)
  ultimately show "(ys ! i, ys ! Suc i) \<in> depends_on ps" by simp
qed

text \<open>
  A report that starts at the key \<open>k\<close> is a lead-in, then a cycle that is closed by its first
  key, and \<open>k\<close> reaches that cycle.
\<close>

lemma reports_from_shape:
  assumes "reports_from ps [k] e"
  shows "\<exists>pre c mid. e = CircularDependency (pre @ c # mid @ [c]) \<and>
           follows_deps ps (pre @ c # mid @ [c]) \<and> distinct (pre @ c # mid) \<and>
           hd (pre @ [c]) = k \<and> reaches_cycle ps k"
proof -
  from assms obtain rest where e0: "e = CircularDependency ([k] @ rest)"
    and fd0: "follows_deps ps ([k] @ rest)"
    and dist0: "distinct (butlast ([k] @ rest))"
    and mem0: "last ([k] @ rest) \<in> set (butlast ([k] @ rest))"
    unfolding reports_from_def by blast
  define full where "full = [k] @ rest"
  define c where "c = last full"
  from e0 have e: "e = CircularDependency full" unfolding full_def .
  from fd0 have fd: "follows_deps ps full" unfolding full_def .
  from dist0 have dist: "distinct (butlast full)" unfolding full_def .
  from mem0 have mem: "c \<in> set (butlast full)" unfolding full_def c_def .
  have ne: "full \<noteq> []" by (simp add: full_def)
  then have full: "full = butlast full @ [c]" by (simp add: c_def)
  from mem have "c \<in> set (butlast full)" .
  then obtain pre mid where bl: "butlast full = pre @ c # mid"
    by (auto simp: in_set_conv_decomp)
  with full have shape: "full = pre @ c # mid @ [c]" by simp
  from dist bl have d: "distinct (pre @ c # mid)" by simp
  have hd_full: "hd full = k" by (simp add: full_def)
  have hd_eq: "hd (pre @ [c]) = k"
  proof (cases pre)
    case Nil
    with shape hd_full show ?thesis by simp
  next
    case (Cons a pre')
    with shape hd_full show ?thesis by simp
  qed
  from fd have fdf: "follows_deps ps (pre @ c # mid @ [c])" unfolding shape .
  then have "follows_deps ps (c # mid @ [c])" by (rule follows_deps_drop)
  from follows_deps_trancl [OF this, of "length mid"]
  have cc: "(c, c) \<in> (depends_on ps)\<^sup>+" by (simp add: nth_append)
  have kc: "(k, c) \<in> (depends_on ps)\<^sup>*"
  proof (cases pre)
    case Nil
    with hd_eq show ?thesis by simp
  next
    case (Cons a pre')
    with hd_eq have a: "a = k" by simp
    from follows_deps_trancl [OF fdf, of "length pre'"] Cons
    have "((a # pre' @ c # mid @ [c]) ! 0, (a # pre' @ c # mid @ [c]) ! Suc (length pre'))
            \<in> (depends_on ps)\<^sup>+" by simp
    then have "(a, c) \<in> (depends_on ps)\<^sup>+" by (simp add: nth_append)
    with a show ?thesis by simp
  qed
  from kc cc have "reaches_cycle ps k" unfolding reaches_cycle_def by blast
  moreover from e have "e = CircularDependency (pre @ c # mid @ [c])" unfolding shape .
  ultimately show ?thesis using fdf d hd_eq by blast
qed

lemma topoSort_no_cycle:
  assumes "indexed byType ps" "topoSort fuel ps invs byType = Some (Inr out)"
  shows "(k, k) \<notin> (depends_on ps)\<^sup>+"
proof
  assume cyc: "(k, k) \<in> (depends_on ps)\<^sup>+"
  then have rc: "reaches_cycle ps k" unfolding reaches_cycle_def by blast
  from topoSort_state [OF assms]
  have dist: "distinct (map providedKey out)"
    and cover: "providedKey ` set ps \<subseteq> providedKey ` set out"
    and idx: "\<forall>q\<in>set out. byType (providedKey q) = Some q"
    and before: "deps_before byType out" by simp_all
  from reaches_cycle_provided [OF rc] cover have "k \<in> providedKey ` set out" by (rule subsetD [rotated])
  from order_no_cycle [OF assms(1) dist idx before this] rc show False by simp
qed

text \<open>
  Claim C2, as the code has it. When no two providers share a key, every reference is met and
  the depends-on relation has a cycle (some key reaches itself in one or more steps),
  \<open>Analyze\<close> fails with a cycle error. The reported path is a lead-in \<open>pre\<close> followed by a
  cycle \<open>c, mid, c\<close>: each key is followed by one of its dependencies, and no key occurs
  twice except the last, which closes the cycle. Its first key is the first root of the
  traversal (what the invocations require, in order, then the providers, in order) from
  which a cycle can be reached. So the path begins and ends with the same key exactly when
  that root lies on the reported cycle, that is, when the lead-in is empty.
\<close>

theorem Analyze_cycle:
  assumes "distinct (map providedKey (Providers parsed))"
    and "spec_unmet_references (Providers parsed) (Invocations parsed) = []"
    and "(k, k) \<in> (depends_on (Providers parsed))\<^sup>+"
  shows "\<exists>pre c mid before after.
           Analyze parsed resolver = Some (Inl (CircularDependency (pre @ c # mid @ [c]))) \<and>
           follows_deps (Providers parsed) (pre @ c # mid @ [c]) \<and>
           distinct (pre @ c # mid) \<and>
           root_keys (Providers parsed) (Invocations parsed) = before @ hd (pre @ [c]) # after \<and>
           (\<forall>k'\<in>set before. \<not> reaches_cycle (Providers parsed) k') \<and>
           reaches_cycle (Providers parsed) (hd (pre @ [c])) \<and>
           (hd (pre @ c # mid @ [c]) = last (pre @ c # mid @ [c]) \<longleftrightarrow> pre = [])"
proof -
  let ?ps = "Providers parsed" and ?invs = "Invocations parsed"
  from assms(1) obtain byType where bt: "indexProviders Map.empty ?ps = Inr byType"
    using indexProviders_Inr_iff by blast
  then have idx: "indexed byType ?ps" by (rule indexProviders_indexed)
  from missing_all_eq [OF idx, of ?invs] assms(2)
  have vd: "validateDeps ?ps ?invs byType = None" by (simp add: validateDeps_def)
  from topoSort_returns [OF idx, of "Suc (length ?ps)" ?invs]
  obtain t where t: "topoSort (Suc (length ?ps)) ?ps ?invs byType = Some t"
    by (cases "topoSort (Suc (length ?ps)) ?ps ?invs byType") simp_all
  show ?thesis
  proof (cases t)
    case (Inr out)
    with t topoSort_no_cycle [OF idx, of "Suc (length ?ps)" ?invs out k] assms(3)
    show ?thesis by simp
  next
    case (Inl e)
    with t have te: "topoSort (Suc (length ?ps)) ?ps ?invs byType = Some (Inl e)" by simp
    from topoSort_roots [OF idx te] obtain before r after where
      roots: "root_keys ?ps ?invs = before @ r # after"
      and nb: "\<forall>k'\<in>set before. \<not> reaches_cycle ?ps k'"
      and rep: "reports_from ?ps [r] e"
      unfolding root_report_def by blast
    from reports_from_shape [OF rep] obtain pre c mid where
      e: "e = CircularDependency (pre @ c # mid @ [c])"
      and fd: "follows_deps ?ps (pre @ c # mid @ [c])"
      and d: "distinct (pre @ c # mid)"
      and h: "hd (pre @ [c]) = r" and rc: "reaches_cycle ?ps r"
      by blast
    from bt vd te e have
      run: "Analyze parsed resolver = Some (Inl (CircularDependency (pre @ c # mid @ [c])))"
      by (simp add: Analyze_def)
    from roots h have roots': "root_keys ?ps ?invs = before @ hd (pre @ [c]) # after" by simp
    from rc h have rc': "reaches_cycle ?ps (hd (pre @ [c]))" by simp
    have ends: "hd (pre @ c # mid @ [c]) = last (pre @ c # mid @ [c]) \<longleftrightarrow> pre = []"
      using d by (cases pre) auto
    show ?thesis
      by (rule exI [of _ pre], rule exI [of _ c], rule exI [of _ mid], rule exI [of _ before],
          rule exI [of _ after], intro conjI, rule run, rule fd, rule d, rule roots', rule nb,
          rule rc', rule ends)
  qed
qed

text \<open>
  On the fixture \<open>lasso\<close> the traversal enters at \<open>A\<close>, outside the cycle between \<open>B\<close> and
  \<open>C\<close>: the reported path starts with \<open>A\<close> and ends with \<open>B\<close>.
\<close>

lemma lasso_keys:
  "map providedKey (Providers lasso) = [''A'', ''B'', ''C'']"
  by (simp add: lasso_def fixture_defs Key_def flip: providedKey_fold)

lemma lasso_unmet: "spec_unmet_references (Providers lasso) (Invocations lasso) = []"
proof -
  have "providedKey ` set (Providers lasso) = {''A'', ''B'', ''C''}"
    using lasso_keys by (simp flip: set_map)
  then show ?thesis
    by (simp add: spec_unmet_references_def) (simp add: lasso_def fixture_defs Key_def)
qed

lemma depends_on_edge:
  assumes "p \<in> set ps" "d \<in> set (Dependencies_P p)" "Key (Type d) \<in> providedKey ` set ps"
    and "providedKey p = k" "Key (Type d) = k'"
  shows "(k, k') \<in> depends_on ps"
  using assms unfolding depends_on_def by blast

lemma lasso_cycle: "(''B'', ''B'') \<in> (depends_on (Providers lasso))\<^sup>+"
proof -
  have keys: "providedKey ` set (Providers lasso) = {''A'', ''B'', ''C''}"
    using lasso_keys by (simp flip: set_map)
  have bc: "(''B'', ''C'') \<in> depends_on (Providers lasso)"
  proof (rule depends_on_edge [of "providerOf ''B'' [''C'']" _ "depOn ''C''"])
    show "providerOf ''B'' [''C''] \<in> set (Providers lasso)"
      by (simp add: lasso_def parseResultOf_def)
    show "depOn ''C'' \<in> set (Dependencies_P (providerOf ''B'' [''C'']))"
      by (simp add: providerOf_def)
    show "Key (Type (depOn ''C'')) \<in> providedKey ` set (Providers lasso)"
      unfolding keys by (simp add: fixture_defs Key_def)
    show "providedKey (providerOf ''B'' [''C'']) = ''B''"
      by (simp add: fixture_defs Key_def flip: providedKey_fold)
    show "Key (Type (depOn ''C'')) = ''C''" by (simp add: fixture_defs Key_def)
  qed
  have cb: "(''C'', ''B'') \<in> depends_on (Providers lasso)"
  proof (rule depends_on_edge [of "providerOf ''C'' [''B'']" _ "depOn ''B''"])
    show "providerOf ''C'' [''B''] \<in> set (Providers lasso)"
      by (simp add: lasso_def parseResultOf_def)
    show "depOn ''B'' \<in> set (Dependencies_P (providerOf ''C'' [''B'']))"
      by (simp add: providerOf_def)
    show "Key (Type (depOn ''B'')) \<in> providedKey ` set (Providers lasso)"
      unfolding keys by (simp add: fixture_defs Key_def)
    show "providedKey (providerOf ''C'' [''B'']) = ''C''"
      by (simp add: fixture_defs Key_def flip: providedKey_fold)
    show "Key (Type (depOn ''B'')) = ''B''" by (simp add: fixture_defs Key_def)
  qed
  from bc cb show ?thesis by (rule trancl_into_trancl [OF r_into_trancl])
qed

theorem Analyze_cycle_counterexample:
  "Analyze lasso id = Some (Inl (CircularDependency [''A'', ''B'', ''C'', ''B''])) \<and>
   hd [''A'', ''B'', ''C'', ''B''] \<noteq> last [''A'', ''B'', ''C'', ''B''] \<and>
   distinct (map providedKey (Providers lasso)) \<and>
   spec_unmet_references (Providers lasso) (Invocations lasso) = [] \<and>
   (''B'', ''B'') \<in> (depends_on (Providers lasso))\<^sup>+"
proof (intro conjI)
  show "Analyze lasso id = Some (Inl (CircularDependency [''A'', ''B'', ''C'', ''B'']))"
    by (simp add: lasso_def eval_defs)
  show "hd [''A'', ''B'', ''C'', ''B''] \<noteq> last [''A'', ''B'', ''C'', ''B'']" by simp
  show "distinct (map providedKey (Providers lasso))" by (simp add: lasso_keys)
  show "spec_unmet_references (Providers lasso) (Invocations lasso) = []" by (rule lasso_unmet)
  show "(''B'', ''B'') \<in> (depends_on (Providers lasso))\<^sup>+" by (rule lasso_cycle)
qed

lemma lasso_roots: "root_keys (Providers lasso) (Invocations lasso) = [''A'', ''B'', ''C'']"
  using lasso_keys by (simp add: root_keys_def) (simp add: lasso_def parseResultOf_def)

lemma lasso_lead_in: "reaches_cycle (Providers lasso) ''A''"
proof -
  have keys: "providedKey ` set (Providers lasso) = {''A'', ''B'', ''C''}"
    using lasso_keys by (simp flip: set_map)
  have ab: "(''A'', ''B'') \<in> depends_on (Providers lasso)"
  proof (rule depends_on_edge [of "providerOf ''A'' [''B'']" _ "depOn ''B''"])
    show "providerOf ''A'' [''B''] \<in> set (Providers lasso)"
      by (simp add: lasso_def parseResultOf_def)
    show "depOn ''B'' \<in> set (Dependencies_P (providerOf ''A'' [''B'']))"
      by (simp add: providerOf_def)
    show "Key (Type (depOn ''B'')) \<in> providedKey ` set (Providers lasso)"
      unfolding keys by (simp add: fixture_defs Key_def)
    show "providedKey (providerOf ''A'' [''B'']) = ''A''"
      by (simp add: fixture_defs Key_def flip: providedKey_fold)
    show "Key (Type (depOn ''B'')) = ''B''" by (simp add: fixture_defs Key_def)
  qed
  then have "(''A'', ''B'') \<in> (depends_on (Providers lasso))\<^sup>*" by (rule r_into_rtrancl)
  with lasso_cycle show ?thesis unfolding reaches_cycle_def by blast
qed

text \<open>
  On \<open>lasso\<close> the hypotheses hold, and the theorem alone fixes the first key of the reported
  path: \<open>A\<close> is the first root and reaches the cycle.
\<close>

theorem Analyze_cycle_witness:
  "\<exists>pre c mid.
      Analyze lasso id = Some (Inl (CircularDependency (pre @ c # mid @ [c]))) \<and>
      follows_deps (Providers lasso) (pre @ c # mid @ [c]) \<and>
      distinct (pre @ c # mid) \<and> hd (pre @ [c]) = ''A''"
proof -
  have "distinct (map providedKey (Providers lasso))" by (simp add: lasso_keys)
  from Analyze_cycle [OF this lasso_unmet lasso_cycle, of id]
  obtain pre c mid before after where
    run: "Analyze lasso id = Some (Inl (CircularDependency (pre @ c # mid @ [c])))"
    and fd: "follows_deps (Providers lasso) (pre @ c # mid @ [c])"
    and d: "distinct (pre @ c # mid)"
    and roots: "root_keys (Providers lasso) (Invocations lasso) = before @ hd (pre @ [c]) # after"
    and nb: "\<forall>k'\<in>set before. \<not> reaches_cycle (Providers lasso) k'"
    by blast
  from roots have eq: "[''A'', ''B'', ''C''] = before @ hd (pre @ [c]) # after"
    by (simp only: lasso_roots)
  have h: "hd (pre @ [c]) = ''A''"
  proof (cases before)
    case Nil
    with eq show ?thesis by simp
  next
    case (Cons x xs)
    with eq have "x = ''A''" by simp
    with Cons have "''A'' \<in> set before" by simp
    with nb lasso_lead_in show ?thesis by blast
  qed
  show ?thesis
    by (rule exI [of _ pre], rule exI [of _ c], rule exI [of _ mid], intro conjI,
        rule run, rule fd, rule d, rule h)
qed


section \<open>Names that collide after disambiguation\<close>

lemma string_of_nat_1: "string_of_nat (Suc 0) = ''1''"
  by (simp add: string_of_nat.simps digit_char_def)

text \<open>
  Claim C5 asks that the variable names of the returned providers be pairwise distinct,
  whatever the base names are. On the fixture \<open>clash\<close> the analyzer succeeds and returns the
  names \<open>config\<close>, \<open>config1\<close>, \<open>config1\<close>: the suffixed name of the second provider is the
  base name of the third, which is counted under its own base name and left as it is.
\<close>

theorem Analyze_varname_collision:
  "map_option (map_sum id (map VarName \<circ> Providers_R)) (Analyze clash id) =
     Some (Inr [''config'', ''config1'', ''config1''])"
  by (simp add: clash_def configOf_def eval_defs resolveVarNames_def string_of_nat_1)


section \<open>The namespaces of the import map\<close>

lemma addPath_set:
  "set (addPath outputPath path paths) = set paths \<union> ({path} - {''''} - {outputPath})"
  by (auto simp: addPath_def)

lemma addPath_fold_set:
  "set (fold (\<lambda>dep. addPath outputPath (f dep)) deps paths) =
     set paths \<union> (f ` set deps - {''''} - {outputPath})"
proof (induction deps arbitrary: paths)
  case Nil
  show ?case by simp
next
  case (Cons dep deps)
  have "set (fold (\<lambda>dep. addPath outputPath (f dep)) (dep # deps) paths) =
        set (addPath outputPath (f dep) paths) \<union> (f ` set deps - {''''} - {outputPath})"
    by (simp add: Cons.IH)
  also have "\<dots> = set paths \<union> (f ` set (dep # deps) - {''''} - {outputPath})"
    unfolding addPath_set by auto
  finally show ?case .
qed

lemma providers_fold_set:
  "set (fold (\<lambda>p paths.
               fold (\<lambda>dep. addPath outputPath (ImportPath (Type dep))) (Dependencies_P p)
                 (addPath outputPath (ImportPath_P p) paths)) providers paths) =
     set paths \<union>
     ((ImportPath_P ` set providers \<union>
       (\<Union>p \<in> set providers. (\<lambda>dep. ImportPath (Type dep)) ` set (Dependencies_P p)))
      - {''''} - {outputPath})"
proof (induction providers arbitrary: paths)
  case Nil
  show ?case by simp
next
  case (Cons p providers)
  let ?step = "fold (\<lambda>dep. addPath outputPath (ImportPath (Type dep))) (Dependencies_P p)
                 (addPath outputPath (ImportPath_P p) paths)"
  have step: "set ?step = set paths \<union> ({ImportPath_P p} - {''''} - {outputPath}) \<union>
        ((\<lambda>dep. ImportPath (Type dep)) ` set (Dependencies_P p) - {''''} - {outputPath})"
    by (simp only: addPath_fold_set addPath_set)
  show ?case
    unfolding fold_Cons comp_apply Cons.IH step by auto
qed

lemma invocations_fold_set:
  "set (fold (\<lambda>iv paths.
               fold (\<lambda>dep. addPath outputPath (ImportPath dep)) (Dependencies_I iv)
                 (addPath outputPath (ImportPath_I iv) paths)) invocations paths) =
     set paths \<union>
     ((ImportPath_I ` set invocations \<union>
       (\<Union>iv \<in> set invocations. ImportPath ` set (Dependencies_I iv)))
      - {''''} - {outputPath})"
proof (induction invocations arbitrary: paths)
  case Nil
  show ?case by simp
next
  case (Cons iv invocations)
  let ?step = "fold (\<lambda>dep. addPath outputPath (ImportPath dep)) (Dependencies_I iv)
                 (addPath outputPath (ImportPath_I iv) paths)"
  have step: "set ?step = set paths \<union> ({ImportPath_I iv} - {''''} - {outputPath}) \<union>
        (ImportPath ` set (Dependencies_I iv) - {''''} - {outputPath})"
    by (simp only: addPath_fold_set addPath_set)
  show ?case
    unfolding fold_Cons comp_apply Cons.IH step by auto
qed

lemma collectPaths_set:
  "set (collectPaths providers invocations outputPath) =
     spec_namespaces providers invocations - {''''} - {outputPath}"
  unfolding collectPaths_def Let_def invocations_fold_set providers_fold_set spec_namespaces_def
  by auto

lemma assignAliases_dom:
  "dom (assignAliases resolver paths baseCount aliases) = dom aliases \<union> set paths"
proof (induction paths arbitrary: baseCount aliases)
  case Nil
  show ?case by simp
next
  case (Cons path paths)
  show ?case by (simp add: Let_def Cons.IH del: fun_upd_apply)
qed

lemma resolveImportAliases_dom:
  "dom (resolveImportAliases paths resolver) = set paths"
  by (simp add: resolveImportAliases_def assignAliases_dom)

text \<open>
  Claim C9. The keys of the map that \<open>collectImports\<close> returns are exactly the namespaces
  that occur as a provider's own namespace, a provider dependency's namespace, an
  invocation's own namespace or the namespace of a type an invocation requires, without the
  empty namespace and without the output namespace.
\<close>

theorem collectImports_keys:
  "dom (collectImports providers invocations outputPath resolver) =
     spec_namespaces providers invocations - {''''} - {outputPath}"
  by (simp only: collectImports_def resolveImportAliases_dom collectPaths_set)


text \<open>The same holds of the \<open>Imports\<close> of a successful analysis, over the providers given.\<close>

lemma resolveVarNames_loop_fields:
  "map ImportPath_P (resolveVarNames_loop usedNames ps) = map ImportPath_P ps \<and>
   map Dependencies_P (resolveVarNames_loop usedNames ps) = map Dependencies_P ps"
  by (induction ps arbitrary: usedNames) (simp_all add: Let_def)

lemma spec_namespaces_fields:
  assumes "map ImportPath_P ps = map ImportPath_P qs"
    and "map Dependencies_P ps = map Dependencies_P qs"
  shows "spec_namespaces ps invs = spec_namespaces qs invs"
proof -
  have a: "ImportPath_P ` set xs = set (map ImportPath_P xs)" for xs by simp
  have b: "(\<Union>p \<in> set xs. (\<lambda>dep. ImportPath (Type dep)) ` set (Dependencies_P p)) =
           (\<Union>ds \<in> set (map Dependencies_P xs). (\<lambda>dep. ImportPath (Type dep)) ` set ds)"
    for xs by simp
  show ?thesis unfolding spec_namespaces_def a b assms ..
qed

lemma Analyze_imports_keys:
  assumes "Analyze parsed resolver = Some (Inr r)"
  shows "dom (Imports r) =
           spec_namespaces (Providers parsed) (Invocations parsed) - {''''}
             - {OutputImportPath parsed}"
proof -
  from assms obtain byType out where
    bt: "indexProviders Map.empty (Providers parsed) = Inr byType"
    and ts: "topoSort (Suc (length (Providers parsed))) (Providers parsed) (Invocations parsed)
               byType = Some (Inr out)"
    and imp: "Imports r = collectImports (resolveVarNames out) (Invocations parsed)
                   (OutputImportPath parsed) resolver"
    by (rule Analyze_success)
  from topoSort_set [OF indexProviders_indexed [OF bt] ts]
  have "set out = set (Providers parsed)" by simp
  then have "spec_namespaces out (Invocations parsed) =
             spec_namespaces (Providers parsed) (Invocations parsed)"
    by (simp add: spec_namespaces_def)
  moreover have "spec_namespaces (resolveVarNames out) (Invocations parsed) =
                 spec_namespaces out (Invocations parsed)"
    by (rule spec_namespaces_fields) (simp_all add: resolveVarNames_def resolveVarNames_loop_fields)
  ultimately show ?thesis
    unfolding imp collectImports_def resolveImportAliases_dom collectPaths_set by simp
qed


section \<open>Aliases of the import map\<close>

subsection \<open>Decimal numerals are read back\<close>






subsection \<open>The alias loop in closed form\<close>

lemma assignAliases_closed:
  "distinct todo \<Longrightarrow>
   assignAliases resolver todo baseCount aliases p =
     (if p \<in> set todo
      then Some (alias_for resolver p
                   (baseCount (resolver p) +
                    length (filter (\<lambda>q. resolver q = resolver p) (takeWhile (\<lambda>q. q \<noteq> p) todo))))
      else aliases p)"
proof (induction todo arbitrary: baseCount aliases)
  case Nil
  show ?case by simp
next
  case (Cons x xs)
  from Cons.prems have d: "distinct xs" and x: "x \<notin> set xs" by simp_all
  define bc' where "bc' = baseCount(resolver x := baseCount (resolver x) + 1)"
  define al' where
    "al' = aliases(x \<mapsto> (if baseCount (resolver x) = 0 then ''''
                          else resolver x @ string_of_nat (baseCount (resolver x))))"
  have step: "assignAliases resolver (x # xs) baseCount aliases p =
              assignAliases resolver xs bc' al' p"
    by (simp add: Let_def bc'_def al'_def)
  note IH = Cons.IH [OF d, of bc' al']
  show ?case
  proof (cases "p = x")
    case True
    with x have "p \<notin> set xs" by simp
    with IH have "assignAliases resolver xs bc' al' p = al' p" by simp
    also have "\<dots> = Some (alias_for resolver p (baseCount (resolver p)))"
      using True by (simp add: al'_def alias_for_def)
    finally show ?thesis unfolding step using True by simp
  next
    case False
    show ?thesis
    proof (cases "p \<in> set xs")
      case True
      have "bc' (resolver p) + length (filter (\<lambda>q. resolver q = resolver p) (takeWhile (\<lambda>q. q \<noteq> p) xs))
            = baseCount (resolver p) +
              length (filter (\<lambda>q. resolver q = resolver p) (takeWhile (\<lambda>q. q \<noteq> p) (x # xs)))"
        using False by (simp add: bc'_def)
      with IH True show ?thesis unfolding step by simp
    next
      case notin: False
      with IH have "assignAliases resolver xs bc' al' p = al' p" by simp
      also have "\<dots> = aliases p" using False by (simp add: al'_def)
      finally show ?thesis unfolding step using False notin by simp
    qed
  qed
qed

lemma takeWhile_sorted:
  "sorted xs \<Longrightarrow> distinct xs \<Longrightarrow> p \<in> set xs \<Longrightarrow>
   takeWhile (\<lambda>q. q \<noteq> p) xs = filter (\<lambda>q. q < p) xs"
proof (induction xs)
  case Nil
  then show ?case by simp
next
  case (Cons x xs)
  from Cons.prems have s: "sorted xs" and d: "distinct xs" and x: "x \<notin> set xs"
    and le: "\<forall>y\<in>set xs. x \<le> y" by simp_all
  show ?case
  proof (cases "x = p")
    case True
    with le have "\<forall>y\<in>set xs. \<not> y < p" by auto
    then have "filter (\<lambda>q. q < p) xs = []" by (simp add: filter_empty_conv)
    with True show ?thesis by simp
  next
    case False
    with Cons.prems(3) have p: "p \<in> set xs" by simp
    with le have "x \<le> p" by simp
    with False have "x < p" by simp
    with False Cons.IH [OF s d p] show ?thesis by simp
  qed
qed

lemma rank_sorted:
  assumes "distinct paths" "p \<in> set paths"
  shows "length (filter (\<lambda>q. resolver q = resolver p)
            (takeWhile (\<lambda>q. q \<noteq> p) (sort paths))) = spec_rank resolver (set paths) p"
proof -
  have s: "sorted (sort paths)" and d: "distinct (sort paths)" and m: "p \<in> set (sort paths)"
    using assms by simp_all
  have "length (filter (\<lambda>q. resolver q = resolver p) (takeWhile (\<lambda>q. q \<noteq> p) (sort paths)))
        = length (filter (\<lambda>q. q < p \<and> resolver q = resolver p) (sort paths))"
    unfolding takeWhile_sorted [OF s d m] by (simp add: conj_commute)
  also have "\<dots> = card ({q. q < p \<and> resolver q = resolver p} \<inter> set (sort paths))"
    using d by (rule distinct_length_filter)
  also have "{q. q < p \<and> resolver q = resolver p} \<inter> set (sort paths)
             = {q \<in> set paths. q < p \<and> resolver q = resolver p}" by auto
  finally show ?thesis unfolding spec_rank_def .
qed

lemma resolveImportAliases_closed:
  assumes "distinct paths"
  shows "resolveImportAliases paths resolver =
           (\<lambda>p. if p \<in> set paths then Some (spec_alias resolver (set paths) p) else None)"
proof (rule ext)
  fix p
  have d: "distinct (sort paths)" using assms by simp
  show "resolveImportAliases paths resolver p =
          (if p \<in> set paths then Some (spec_alias resolver (set paths) p) else None)"
  proof (cases "p \<in> set paths")
    case True
    with rank_sorted [OF assms True, of resolver] show ?thesis
      unfolding resolveImportAliases_def assignAliases_closed [OF d]
      by (simp add: alias_for_def spec_alias_def)
  next
    case False
    then show ?thesis
      unfolding resolveImportAliases_def assignAliases_closed [OF d] by simp
  qed
qed



subsection \<open>Aliases by rank\<close>

lemma addPath_distinct: "distinct paths \<Longrightarrow> distinct (addPath outputPath path paths)"
  by (simp add: addPath_def)

lemma addPath_fold_distinct:
  "distinct paths \<Longrightarrow> distinct (fold (\<lambda>dep. addPath outputPath (f dep)) deps paths)"
  by (induction deps arbitrary: paths) (simp_all add: addPath_distinct)

lemma collectPaths_distinct: "distinct (collectPaths providers invocations outputPath)"
proof -
  have p: "distinct paths \<Longrightarrow>
        distinct (fold (\<lambda>p paths.
               fold (\<lambda>dep. addPath outputPath (ImportPath (Type dep))) (Dependencies_P p)
                 (addPath outputPath (ImportPath_P p) paths)) ps paths)" for ps paths
    by (induction ps arbitrary: paths) (simp_all add: addPath_distinct addPath_fold_distinct)
  have i: "distinct paths \<Longrightarrow>
        distinct (fold (\<lambda>iv paths.
               fold (\<lambda>dep. addPath outputPath (ImportPath dep)) (Dependencies_I iv)
                 (addPath outputPath (ImportPath_I iv) paths)) ivs paths)" for ivs paths
    by (induction ivs arbitrary: paths) (simp_all add: addPath_distinct addPath_fold_distinct)
  show ?thesis unfolding collectPaths_def Let_def by (rule i, rule p) simp
qed





text \<open>The same closed form for \<open>collectImports\<close>, whose paths are collected without repetition.\<close>

lemma collectImports_closed:
  "collectImports providers invocations outputPath resolver =
     (\<lambda>p. if p \<in> set (collectPaths providers invocations outputPath)
          then Some (spec_alias resolver (set (collectPaths providers invocations outputPath)) p)
          else None)"
  unfolding collectImports_def by (rule resolveImportAliases_closed [OF collectPaths_distinct])


section \<open>The fallback name of an import path\<close>

subsection \<open>Base and Dir of a joined path\<close>

lemma Join_snoc: "xs \<noteq> [] \<Longrightarrow> Join (xs @ [l]) sep = Join xs sep @ sep @ l"
proof (induction xs sep rule: Join.induct)
  case (1 sep)
  then show ?case by simp
next
  case (2 x sep)
  show ?case by simp
next
  case (3 x y ys sep)
  then show ?case by simp
qed

lemma Base_last:
  assumes "l \<noteq> ''''" "CHR ''/'' \<notin> set l"
  shows "Base (d @ ''/'' @ l) = l" "Base l = l"
proof -
  from assms(1) obtain c cs where rl: "rev l = c # cs" by (cases "rev l") simp_all
  with assms(2) have c: "c \<noteq> CHR ''/''" by (metis list.set_intros(1) set_rev)
  from assms(2) have ns: "\<forall>x\<in>set l. x \<noteq> CHR ''/''" by blast
  have tw: "takeWhile (\<lambda>c. c \<noteq> CHR ''/'') (rev l @ xs) = rev l" if "xs = [] \<or> hd xs = CHR ''/''" for xs
    using ns that by (cases xs) (simp_all add: takeWhile_append)
  show "Base (d @ ''/'' @ l) = l"
    using rl c tw [of "CHR ''/'' # rev d"] assms(1)
    by (simp add: Base_def IsPathSeparator_def Let_def)
  show "Base l = l"
    using rl c tw [of "[]"] assms(1)
    by (simp add: Base_def IsPathSeparator_def Let_def)
qed

lemma Base_Join:
  assumes "segs \<noteq> []" "last segs \<noteq> ''''" "CHR ''/'' \<notin> set (last segs)"
  shows "Base (Join segs ''/'') = last segs"
proof (cases "butlast segs = []")
  case True
  with assms(1) have "segs = [last segs]" by (metis append_Nil append_butlast_last_id)
  then have "Join segs ''/'' = last segs" by (metis Join.simps(2))
  with Base_last(2) [OF assms(2,3)] show ?thesis by simp
next
  case False
  from assms(1) have "segs = butlast segs @ [last segs]" by simp
  then have "Join segs ''/'' = Join (butlast segs) ''/'' @ ''/'' @ last segs"
    using Join_snoc [OF False, of "last segs" "''/''"] by simp
  with Base_last(1) [OF assms(2,3)] show ?thesis by simp
qed

lemma Dir_last:
  assumes "CHR ''/'' \<notin> set l"
  shows "Dir (d @ ''/'' @ l) = Clean (d @ ''/'')" "Dir l = ''.''"
proof -
  from assms have ns: "\<forall>x\<in>set l. x \<noteq> CHR ''/''" by blast
  have dw: "dropWhile (\<lambda>c. c \<noteq> CHR ''/'') (rev l @ xs) = xs" if "xs = [] \<or> hd xs = CHR ''/''" for xs
    using ns that by (cases xs) (simp_all add: dropWhile_append)
  show "Dir (d @ ''/'' @ l) = Clean (d @ ''/'')"
    using dw [of "CHR ''/'' # rev d"] by (simp add: Dir_def IsPathSeparator_def)
  show "Dir l = ''.''"
    using dw [of "[]"] by (simp add: Dir_def IsPathSeparator_def Clean_def)
qed

lemma elements_ne: "elements s \<noteq> []"
  by (induction s) (simp_all split: list.splits)

lemma elements_noslash:
  "CHR ''/'' \<notin> set x \<Longrightarrow> elements (x @ ys) = (x @ hd (elements ys)) # tl (elements ys)"
proof (induction x)
  case Nil
  with elements_ne [of ys] show ?case by simp
next
  case (Cons c x)
  then have c: "\<not> IsPathSeparator c" and x: "CHR ''/'' \<notin> set x"
    by (auto simp: IsPathSeparator_def)
  from Cons.IH [OF x] c show ?case by simp
qed

lemma elements_slash:
  "CHR ''/'' \<notin> set x \<Longrightarrow> elements (x @ ''/'' @ ys) = x # elements ys"
  using elements_noslash [of x "''/'' @ ys"] by (simp add: IsPathSeparator_def)

lemma elements_Join:
  "segs \<noteq> [] \<Longrightarrow> \<forall>s\<in>set segs. CHR ''/'' \<notin> set s \<Longrightarrow>
   elements (Join segs ''/'' @ ''/'') = segs @ [[]]"
proof (induction segs "''/''" rule: Join.induct)
  case 1
  then show ?case by simp
next
  case (2 x)
  then have "CHR ''/'' \<notin> set x" by simp
  from elements_slash [OF this, of "[]"] show ?case by simp
next
  case (3 x y ys)
  then have x: "CHR ''/'' \<notin> set x" and rest: "\<forall>s\<in>set (y # ys). CHR ''/'' \<notin> set s" by simp_all
  from 3(1) rest have IH: "elements (Join (y # ys) ''/'' @ ''/'') = (y # ys) @ [[]]" by simp
  have "Join (x # y # ys) ''/'' @ ''/'' = x @ ''/'' @ (Join (y # ys) ''/'' @ ''/'')" by simp
  then have "elements (Join (x # y # ys) ''/'' @ ''/'') = x # elements (Join (y # ys) ''/'' @ ''/'')"
    using elements_slash [OF x] by (simp only:)
  with IH show ?case by simp
qed

lemma cleanElements_normal:
  "\<forall>e\<in>set es. e \<noteq> '''' \<and> e \<noteq> ''.'' \<and> e \<noteq> ''..'' \<Longrightarrow>
   cleanElements rooted out (es @ [[]]) = out @ es"
  by (induction es arbitrary: out) simp_all

lemma cleanElements_append:
  "cleanElements rooted out (es @ es') = cleanElements rooted (cleanElements rooted out es) es'"
  by (induction es arbitrary: out rooted) simp_all

lemma Join_snoc_ne: "Join (xs @ [l]) sep = (if xs = [] then l else Join xs sep @ sep @ l)"
  by (cases "xs = []") (simp_all add: Join_snoc)

text \<open>
  Whatever the elements before it, a plain element that ends the path is the last element
  of the cleaned path.
\<close>

lemma Base_Clean_Join:
  assumes "\<forall>x\<in>set init. CHR ''/'' \<notin> set x"
    and "CHR ''/'' \<notin> set s" "plain_segment s"
  shows "Base (Clean (Join (init @ [s]) ''/'' @ ''/'')) = s"
proof -
  let ?P = "Join (init @ [s]) ''/'' @ ''/''"
  let ?r = "IsPathSeparator (hd ?P)"
  let ?X = "cleanElements ?r [] init"
  from assms(3) have s: "s \<noteq> ''''" and dots: "s \<noteq> ''.''" "s \<noteq> ''..''"
    by (simp_all add: plain_segment_def)
  have ns: "\<forall>x\<in>set (init @ [s]). CHR ''/'' \<notin> set x" using assms(1,2) by simp
  have el: "elements ?P = (init @ [s]) @ [[]]" by (rule elements_Join [OF _ ns]) simp
  have "cleanElements ?r [] (elements ?P) = cleanElements ?r ?X ([s] @ [[]])"
    unfolding el by (simp only: cleanElements_append append_assoc)
  also have "\<dots> = ?X @ [s]"
    by (rule cleanElements_normal) (simp add: s dots)
  finally have out: "cleanElements ?r [] (elements ?P) = ?X @ [s]" .
  have jn: "Join (?X @ [s]) ''/'' \<noteq> ''''" using s by (simp add: Join_snoc_ne)
  have "?P \<noteq> ''''" by simp
  then have clean: "Clean ?P = (if ?r then ''/'' else '''') @ Join (?X @ [s]) ''/''"
    unfolding Clean_def Let_def out using jn by simp
  show ?thesis
  proof (cases "?X = []")
    case True
    then have "Clean ?P = (if ?r then [] @ ''/'' @ s else s)" unfolding clean by simp
    with Base_last(1) [OF s assms(2), of "[]"] Base_last(2) [OF s assms(2)] show ?thesis
      by (simp split: if_splits)
  next
    case False
    then have "Clean ?P = ((if ?r then ''/'' else '''') @ Join ?X ''/'') @ ''/'' @ s"
      unfolding clean by (simp add: Join_snoc_ne)
    with Base_last(1) [OF s assms(2), of "(if ?r then ''/'' else '''') @ Join ?X ''/''"]
    show ?thesis by (simp only:)
  qed
qed

lemma Base_Dir_segments:
  assumes "\<forall>x\<in>set init. CHR ''/'' \<notin> set x"
    and "CHR ''/'' \<notin> set s" "plain_segment s" "CHR ''/'' \<notin> set l"
  shows "Base (Dir (Join (init @ [s, l]) ''/'')) = s"
proof -
  have "Join ((init @ [s]) @ [l]) ''/'' = Join (init @ [s]) ''/'' @ ''/'' @ l"
    by (rule Join_snoc) simp
  then have "Join (init @ [s, l]) ''/'' = Join (init @ [s]) ''/'' @ ''/'' @ l" by simp
  with Dir_last(1) [OF assms(4), of "Join (init @ [s]) ''/''"]
  have "Dir (Join (init @ [s, l]) ''/'') = Clean (Join (init @ [s]) ''/'' @ ''/'')" by simp
  with Base_Clean_Join [OF assms(1,2,3)] show ?thesis by simp
qed

subsection \<open>Version suffixes\<close>

lemma is_digit_iff: "\<not> (c < CHR ''0'' \<or> c > CHR ''9'') \<longleftrightarrow> is_digit c"
  by (auto simp: is_digit_def not_less)

lemma isVersionSuffix_iff:
  "isVersionSuffix s \<longleftrightarrow> (\<exists>ds. s = CHR ''v'' # ds \<and> ds \<noteq> [] \<and> list_all is_digit ds)"
proof (cases s)
  case Nil
  then show ?thesis by (simp add: isVersionSuffix_def)
next
  case (Cons c cs)
  have len: "length (c # cs) < 2 \<longleftrightarrow> cs = []" by (cases cs) simp_all
  have pred: "(\<lambda>c. \<not> (c < CHR ''0'' \<or> c > CHR ''9'')) = is_digit"
    by (rule ext) (rule is_digit_iff)
  show ?thesis unfolding isVersionSuffix_def pred Cons len by auto
qed

lemma is_digit_not_dot: "is_digit c \<Longrightarrow> c \<noteq> CHR ''.''"
  by (auto simp: is_digit_def)

lemma is_digit_not_slash: "is_digit c \<Longrightarrow> c \<noteq> CHR ''/''"
  by (auto simp: is_digit_def)

lemma LastIndex_from_last:
  "take (length sub) (drop i s) = sub \<Longrightarrow> i \<le> n \<Longrightarrow>
   \<forall>j. i < j \<and> j \<le> n \<longrightarrow> take (length sub) (drop j s) \<noteq> sub \<Longrightarrow>
   LastIndex_from s sub n = int i"
proof (induction n)
  case 0
  then show ?case by simp
next
  case (Suc n)
  show ?case
  proof (cases "i = Suc n")
    case True
    with Suc.prems(1) show ?thesis by simp
  next
    case False
    with Suc.prems(2) have le: "i \<le> n" and lt: "i < Suc n" by simp_all
    from Suc.prems(3) lt have no: "take (length sub) (drop (Suc n) s) \<noteq> sub" by simp
    from Suc.prems(3) have "\<forall>j. i < j \<and> j \<le> n \<longrightarrow> take (length sub) (drop j s) \<noteq> sub" by simp
    from Suc.IH [OF Suc.prems(1) le this] no show ?thesis by simp
  qed
qed

lemma LastIndex_from_cases:
  "LastIndex_from s sub n = - 1 \<or>
   (\<exists>i\<le>n. LastIndex_from s sub n = int i \<and> take (length sub) (drop i s) = sub)"
proof (induction n)
  case 0
  show ?case by simp
next
  case (Suc n)
  show ?case
  proof (cases "take (length sub) (drop (Suc n) s) = sub")
    case True
    then show ?thesis by auto
  next
    case False
    with Suc show ?thesis by (auto intro: le_SucI)
  qed
qed

lemma take2_notin:
  assumes "x \<notin> set t"
  shows "take 2 (drop k t) \<noteq> [x, y]"
proof
  assume eq: "take 2 (drop k t) = [x, y]"
  then have "x \<in> set (take 2 (drop k t))" by simp
  then have "x \<in> set (drop k t)" by (rule in_set_takeD)
  then have "x \<in> set t" by (rule in_set_dropD)
  with assms show False by simp
qed

lemma LastIndex_dot_version:
  assumes "list_all is_digit ds"
  shows "LastIndex (stem @ ''.v'' @ ds) ''.v'' = int (length stem)"
  unfolding LastIndex_def
proof (rule LastIndex_from_last)
  show "take (length ''.v'') (drop (length stem) (stem @ ''.v'' @ ds)) = ''.v''" by simp
  show "length stem \<le> length (stem @ ''.v'' @ ds)" by simp
  show "\<forall>j. length stem < j \<and> j \<le> length (stem @ ''.v'' @ ds) \<longrightarrow>
          take (length ''.v'') (drop j (stem @ ''.v'' @ ds)) \<noteq> ''.v''"
  proof (intro allI impI)
    fix j assume j: "length stem < j \<and> j \<le> length (stem @ ''.v'' @ ds)"
    then obtain k where k: "j = length stem + Suc k" by (metis less_imp_Suc_add add_Suc_right)
    from assms have "CHR ''.'' \<notin> set (CHR ''v'' # ds)"
      using is_digit_not_dot by (auto simp: list_all_iff)
    from take2_notin [OF this, of k "CHR ''v''"]
    have "take 2 (drop k (CHR ''v'' # ds)) \<noteq> ''.v''" by simp
    then have ne: "take (length ''.v'') (drop k (CHR ''v'' # ds)) \<noteq> ''.v''"
      by (simp add: numeral_2_eq_2)
    have deq: "drop j (stem @ ''.v'' @ ds) = drop k (CHR ''v'' # ds)" by (simp add: k)
    show "take (length ''.v'') (drop j (stem @ ''.v'' @ ds)) \<noteq> ''.v''"
      unfolding deq by (rule ne)
  qed
qed

lemma versionSuffix_dot_version:
  assumes "ds \<noteq> []" "list_all is_digit ds"
  shows "versionSuffix (stem @ ''.v'' @ ds) = ''.v'' @ ds"
proof -
  have v: "isVersionSuffix (CHR ''v'' # ds)" unfolding isVersionSuffix_iff using assms by blast
  have n: "nat (int (length stem) + 1) = Suc (length stem)" by simp
  have d: "drop (Suc (length stem)) (stem @ ''.v'' @ ds) = CHR ''v'' # ds" by simp
  have i: "int (length stem) \<noteq> - 1" by simp
  show ?thesis
    unfolding versionSuffix_def LastIndex_dot_version [OF assms(2)] Let_def n d
    using v i by simp
qed

lemma versionSuffix_cases:
  "versionSuffix s = '''' \<or>
   (\<exists>stem ds. s = stem @ ''.v'' @ ds \<and> ds \<noteq> [] \<and> list_all is_digit ds)"
proof (cases "versionSuffix s = ''''")
  case True
  then show ?thesis by simp
next
  case False
  from LastIndex_from_cases [of s "''.v''" "length s"]
  consider "LastIndex s ''.v'' = - 1"
    | i where "i \<le> length s" "LastIndex s ''.v'' = int i"
        "take (length ''.v'') (drop i s) = ''.v''"
    unfolding LastIndex_def by blast
  then show ?thesis
  proof cases
    case 1
    with False show ?thesis by (simp add: versionSuffix_def)
  next
    case 2
    define stem where "stem = take i s"
    define rest where "rest = drop (i + 2) s"
    from 2(3) have t2: "take 2 (drop i s) = ''.v''" by (simp add: numeral_2_eq_2)
    have "s = take i s @ (take 2 (drop i s) @ drop 2 (drop i s))"
      by (simp only: append_take_drop_id)
    moreover have "drop 2 (drop i s) = rest" unfolding rest_def by (simp add: add.commute)
    ultimately have s: "s = stem @ ''.v'' @ rest"
      unfolding stem_def t2 by (simp only:)
    have li: "length stem = i" using 2(1) by (simp add: stem_def)
    have "drop (i + 1) (stem @ ''.v'' @ rest) = CHR ''v'' # rest" using li by simp
    with s have d1: "drop (i + 1) s = CHR ''v'' # rest" by simp
    have n: "nat (int i + 1) = i + 1" by simp
    from False 2(2) have "isVersionSuffix (drop (nat (int i + 1)) s)"
      by (auto simp: versionSuffix_def Let_def split: if_splits)
    then have "isVersionSuffix (drop (i + 1) s)" unfolding n .
    with d1 have "rest \<noteq> [] \<and> list_all is_digit rest"
      by (simp add: isVersionSuffix_iff)
    with s show ?thesis by blast
  qed
qed

lemma CutSuffix_append: "CutSuffix (stem @ suffix) suffix = (stem, True)"
  by (simp add: CutSuffix_def HasSuffix_def)

lemma CutSuffix_empty: "CutSuffix s '''' = (s, True)"
  by (simp add: CutSuffix_def HasSuffix_def)

subsection \<open>fallbackName by segments\<close>

lemma bare_version_no_dot:
  assumes "list_all is_digit ds"
  shows "CHR ''v'' # ds \<noteq> stem @ ''.v'' @ ds'"
proof
  assume "CHR ''v'' # ds = stem @ ''.v'' @ ds'"
  then have "CHR ''.'' \<in> set (CHR ''v'' # ds)" by simp
  with assms is_digit_not_dot show False by (auto simp: list_all_iff)
qed

lemma path_segments_Base:
  assumes "path_segments segs"
  shows "Base (Join segs ''/'') = last segs"
proof -
  from assms have ne: "segs \<noteq> []" and l: "last segs \<noteq> ''''"
    and ns: "\<forall>s\<in>set segs. CHR ''/'' \<notin> set s"
    by (simp_all add: path_segments_def)
  from ne ns have "CHR ''/'' \<notin> set (last segs)" by simp
  with Base_Join [OF ne l] show ?thesis .
qed

lemma fallbackName_bare_only:
  assumes "path_segments segs" "last segs = CHR ''v'' # ds" "ds \<noteq> []" "list_all is_digit ds"
    and "length segs = 1"
  shows "fallbackName (Join segs ''/'') = ''.''"
proof -
  from assms(2,3,4) have v: "isVersionSuffix (last segs)" unfolding isVersionSuffix_iff by blast
  from path_segments_Base [OF assms(1)] v
  have run: "fallbackName (Join segs ''/'') = Base (Dir (Join segs ''/''))"
    by (simp add: fallbackName_def Let_def)
  from assms(1) have ns: "CHR ''/'' \<notin> set (last segs)" by (simp add: path_segments_def)
  from assms(5) have "segs = [last segs]" by (cases segs) simp_all
  then have "Join segs ''/'' = last segs" by (metis Join.simps(2))
  with Dir_last(2) [OF ns] have "Dir (Join segs ''/'') = ''.''" by simp
  moreover have "Base ''.'' = ''.''" by (rule Base_last(2)) simp_all
  ultimately show ?thesis using run by simp
qed

lemma fallbackName_bare:
  assumes "path_segments segs" "last segs = CHR ''v'' # ds" "ds \<noteq> []" "list_all is_digit ds"
    and "2 \<le> length segs" "plain_segment (segs ! (length segs - 2))"
  shows "fallbackName (Join segs ''/'') = segs ! (length segs - 2)"
proof -
  from assms(2,3,4) have v: "isVersionSuffix (last segs)" unfolding isVersionSuffix_iff by blast
  from path_segments_Base [OF assms(1)] v
  have run: "fallbackName (Join segs ''/'') = Base (Dir (Join segs ''/''))"
    by (simp add: fallbackName_def Let_def)
  from assms(1) have ns: "\<forall>s\<in>set segs. CHR ''/'' \<notin> set s" by (simp add: path_segments_def)
  define init where "init = take (length segs - 2) segs"
  define s where "s = segs ! (length segs - 2)"
  define l where "l = last segs"
  have li: "length init = length segs - 2" by (simp add: init_def)
  have split: "segs = init @ [s, l]"
  proof (rule nth_equalityI)
    show "length segs = length (init @ [s, l])" using assms(5) li by simp
  next
    fix i assume i: "i < length segs"
    consider "i < length segs - 2" | "i = length segs - 2" | "i = length segs - 1"
      using i by linarith
    then show "segs ! i = (init @ [s, l]) ! i"
    proof cases
      case 1
      then show ?thesis by (simp add: nth_append li init_def)
    next
      case 2
      then show ?thesis by (simp add: nth_append li s_def)
    next
      case 3
      with assms(5) have "i - length init = Suc 0" using li by simp
      moreover from 3 assms(5) have "\<not> i < length init" using li by simp
      moreover from assms(5) have "segs \<noteq> []" by auto
      then have "last segs = segs ! (length segs - 1)" by (rule last_conv_nth)
      ultimately show ?thesis using 3 by (simp add: nth_append l_def)
    qed
  qed
  have in_init: "\<forall>x\<in>set init. CHR ''/'' \<notin> set x"
    using ns by (auto simp: init_def dest: in_set_takeD)
  have s_in: "s \<in> set segs" and l_in: "l \<in> set segs" by (subst split, simp)+
  from ns s_in l_in have sl: "CHR ''/'' \<notin> set s" "CHR ''/'' \<notin> set l" by simp_all
  from assms(6) have ps: "plain_segment s" by (simp add: s_def)
  from Base_Dir_segments [OF in_init sl(1) ps sl(2)] split
  have "Base (Dir (Join segs ''/'')) = s" by simp
  with run show ?thesis by (simp add: s_def)
qed

lemma fallbackName_dot_version:
  assumes "path_segments segs" "last segs = stem @ ''.v'' @ ds" "ds \<noteq> []" "list_all is_digit ds"
  shows "fallbackName (Join segs ''/'') = stem"
proof -
  from path_segments_Base [OF assms(1)] assms(2)
  have base: "Base (Join segs ''/'') = stem @ ''.v'' @ ds" by simp
  have nv: "\<not> isVersionSuffix (stem @ ''.v'' @ ds)"
    unfolding isVersionSuffix_iff using bare_version_no_dot by metis
  have cut: "CutSuffix (stem @ ''.v'' @ ds) (versionSuffix (stem @ ''.v'' @ ds)) = (stem, True)"
    unfolding versionSuffix_dot_version [OF assms(3,4)] by (rule CutSuffix_append)
  show ?thesis
    unfolding fallbackName_def base Let_def using nv cut by (simp only: if_False) simp
qed

lemma fallbackName_plain:
  assumes "path_segments segs"
    and "\<nexists>ds. last segs = CHR ''v'' # ds \<and> ds \<noteq> [] \<and> list_all is_digit ds"
    and "\<nexists>stem ds. last segs = stem @ ''.v'' @ ds \<and> ds \<noteq> [] \<and> list_all is_digit ds"
  shows "fallbackName (Join segs ''/'') = last segs"
proof -
  from path_segments_Base [OF assms(1)] have base: "Base (Join segs ''/'') = last segs" .
  from assms(2) have nv: "\<not> isVersionSuffix (last segs)" unfolding isVersionSuffix_iff .
  from versionSuffix_cases [of "last segs"] assms(3)
  have "versionSuffix (last segs) = ''''" by blast
  then have cut: "CutSuffix (last segs) (versionSuffix (last segs)) = (last segs, True)"
    by (simp only: CutSuffix_empty)
  show ?thesis
    unfolding fallbackName_def base Let_def using nv cut by (simp only: if_False) simp
qed

lemma Join_Cons_char: "Join ((c # e) # es) sep = c # Join (e # es) sep"
  by (cases es) simp_all

lemma Join_elements: "Join (elements p) ''/'' = p"
proof (induction p)
  case Nil
  show ?case by simp
next
  case (Cons c cs)
  obtain e es where el: "elements cs = e # es" using elements_ne [of cs] by (cases "elements cs") auto
  show ?case
  proof (cases "IsPathSeparator c")
    case True
    then have "c = CHR ''/''" by (simp add: IsPathSeparator_def)
    with True el Cons.IH show ?thesis by simp
  next
    case False
    with el have "elements (c # cs) = (c # e) # es" by simp
    with Cons.IH el show ?thesis by (simp add: Join_Cons_char)
  qed
qed

lemma elements_no_separator: "\<forall>e\<in>set (elements p). CHR ''/'' \<notin> set e"
proof (induction p)
  case Nil
  show ?case by simp
next
  case (Cons c cs)
  obtain e es where el: "elements cs = e # es" using elements_ne [of cs] by (cases "elements cs") auto
  with Cons.IH show ?case by (auto simp: IsPathSeparator_def)
qed

lemma last_elements: "p \<noteq> '''' \<Longrightarrow> last p \<noteq> CHR ''/'' \<Longrightarrow> last (elements p) \<noteq> ''''"
proof (induction p)
  case Nil
  then show ?case by simp
next
  case (Cons c cs)
  obtain e es where el: "elements cs = e # es" using elements_ne [of cs] by (cases "elements cs") auto
  show ?case
  proof (cases "cs = []")
    case True
    with Cons.prems show ?thesis by (simp add: IsPathSeparator_def)
  next
    case False
    with Cons.prems have "last cs \<noteq> CHR ''/''" by simp
    from Cons.IH [OF False this] have IH: "last (e # es) \<noteq> ''''" using el by simp
    show ?thesis
    proof (cases "IsPathSeparator c")
      case True
      with el IH show ?thesis by simp
    next
      case no: False
      with el have "elements (c # cs) = (c # e) # es" by simp
      with IH show ?thesis by (cases es) simp_all
    qed
  qed
qed

text \<open>Every path that is not empty and does not end with a separator is covered.\<close>

lemma path_segments_elements:
  assumes "p \<noteq> ''''" "last p \<noteq> CHR ''/''"
  shows "path_segments (elements p) \<and> Join (elements p) ''/'' = p"
  using assms
  by (simp add: path_segments_def elements_ne elements_no_separator last_elements Join_elements)

text \<open>
  Claim C10, as the code has it. \<open>fallbackName\<close> is a total function. Take a path by its
  segments, the pieces between separators, the last of which is not empty. When the last
  segment is a bare version (\<open>v\<close> and one or more digits), the result is the segment before
  it, provided that segment is not empty, \<open>.\<close> or \<open>..\<close>; when the bare version is the only
  segment, the result is \<open>.\<close>. When the last segment ends with \<open>.v\<close> and one or more digits,
  the result is the segment without that suffix. Otherwise the result is the last segment
  as it is.
\<close>

theorem fallbackName_segments:
  assumes "path_segments segs"
  shows "(\<forall>ds. last segs = CHR ''v'' # ds \<and> ds \<noteq> [] \<and> list_all is_digit ds \<longrightarrow>
            (length segs = 1 \<longrightarrow> fallbackName (Join segs ''/'') = ''.'') \<and>
            (2 \<le> length segs \<and> plain_segment (segs ! (length segs - 2)) \<longrightarrow>
               fallbackName (Join segs ''/'') = segs ! (length segs - 2))) \<and>
         (\<forall>stem ds. last segs = stem @ ''.v'' @ ds \<and> ds \<noteq> [] \<and> list_all is_digit ds \<longrightarrow>
            fallbackName (Join segs ''/'') = stem) \<and>
         ((\<nexists>ds. last segs = CHR ''v'' # ds \<and> ds \<noteq> [] \<and> list_all is_digit ds) \<and>
          (\<nexists>stem ds. last segs = stem @ ''.v'' @ ds \<and> ds \<noteq> [] \<and> list_all is_digit ds) \<longrightarrow>
            fallbackName (Join segs ''/'') = last segs)"
proof (intro conjI allI impI)
  fix ds assume "last segs = CHR ''v'' # ds \<and> ds \<noteq> [] \<and> list_all is_digit ds"
    and "length segs = 1"
  then show "fallbackName (Join segs ''/'') = ''.''"
    using fallbackName_bare_only [OF assms] by blast
next
  fix ds assume "last segs = CHR ''v'' # ds \<and> ds \<noteq> [] \<and> list_all is_digit ds"
    and "2 \<le> length segs \<and> plain_segment (segs ! (length segs - 2))"
  then show "fallbackName (Join segs ''/'') = segs ! (length segs - 2)"
    using fallbackName_bare [OF assms] by blast
next
  fix stem ds assume "last segs = stem @ ''.v'' @ ds \<and> ds \<noteq> [] \<and> list_all is_digit ds"
  then show "fallbackName (Join segs ''/'') = stem"
    using fallbackName_dot_version [OF assms] by blast
next
  assume "(\<nexists>ds. last segs = CHR ''v'' # ds \<and> ds \<noteq> [] \<and> list_all is_digit ds) \<and>
          (\<nexists>stem ds. last segs = stem @ ''.v'' @ ds \<and> ds \<noteq> [] \<and> list_all is_digit ds)"
  then show "fallbackName (Join segs ''/'') = last segs"
    using fallbackName_plain [OF assms] by blast
qed

lemma no_dot_version:
  "CHR ''.'' \<notin> set l \<Longrightarrow> \<nexists>stem ds. l = stem @ ''.v'' @ ds \<and> ds \<noteq> [] \<and> list_all is_digit ds"
  by auto

theorem fallbackName_segments_witness:
  "path_segments [''github.com'', ''example'', ''pkg'', ''v2''] \<and>
   fallbackName ''github.com/example/pkg/v2'' = ''pkg'' \<and>
   path_segments [''gopkg.in'', ''yaml.v3''] \<and>
   fallbackName ''gopkg.in/yaml.v3'' = ''yaml'' \<and>
   path_segments [''fmt''] \<and>
   fallbackName ''fmt'' = ''fmt''"
proof -
  let ?a = "[''github.com'', ''example'', ''pkg'', ''v2'']"
  let ?b = "[''gopkg.in'', ''yaml.v3'']"
  let ?c = "[''fmt'']"
  have wa: "path_segments ?a" and wb: "path_segments ?b" and wc: "path_segments ?c"
    by (simp_all add: path_segments_def)
  have "last ?a = CHR ''v'' # ''2'' \<and> ''2'' \<noteq> [] \<and> list_all is_digit ''2''"
    by (simp add: is_digit_def)
  moreover have "2 \<le> length ?a \<and> plain_segment (?a ! (length ?a - 2))"
    by (simp add: plain_segment_def)
  ultimately have a: "fallbackName ''github.com/example/pkg/v2'' = ''pkg''"
    using fallbackName_segments [OF wa, THEN conjunct1, rule_format, of "''2''", THEN conjunct2]
    by simp
  have "last ?b = ''yaml'' @ ''.v'' @ ''3'' \<and> ''3'' \<noteq> [] \<and> list_all is_digit ''3''"
    by (simp add: is_digit_def)
  with fallbackName_segments [OF wb, THEN conjunct2, THEN conjunct1, rule_format,
      of "''yaml''" "''3''"]
  have b: "fallbackName ''gopkg.in/yaml.v3'' = ''yaml''" by simp
  have "(\<nexists>ds. last ?c = CHR ''v'' # ds \<and> ds \<noteq> [] \<and> list_all is_digit ds) \<and>
        (\<nexists>stem ds. last ?c = stem @ ''.v'' @ ds \<and> ds \<noteq> [] \<and> list_all is_digit ds)"
    using no_dot_version [of "''fmt''"] by simp
  with fallbackName_segments [OF wc, THEN conjunct2, THEN conjunct2]
  have c: "fallbackName ''fmt'' = ''fmt''" by simp
  from wa a wb b wc c show ?thesis by (intro conjI)
qed

text \<open>
  The path \<open>v2\<close> has one segment, a bare version. The result is \<open>.\<close>, which is no segment
  of the path.
\<close>

theorem fallbackName_counterexample:
  "fallbackName ''v2'' = ''.'' \<and> isVersionSuffix (Base ''v2'') \<and>
   elements ''v2'' = [''v2''] \<and> ''.'' \<notin> set (elements ''v2'')"
  by (simp add: fallbackName_def Base_def Dir_def Clean_def isVersionSuffix_def
      IsPathSeparator_def)

text \<open>
  Paths outside the theorem: \<open>Clean\<close> removes an empty segment, \<open>.\<close> and \<open>..\<close> before the
  version, and \<open>Base\<close> removes a trailing separator and turns the empty path into \<open>.\<close>.
\<close>

lemma fallbackName_other_paths:
  "fallbackName ''a/./v2'' = ''a'' \<and> fallbackName ''a/../v2'' = ''.'' \<and>
   fallbackName ''a//v2'' = ''a'' \<and> fallbackName ''pkg/'' = ''pkg'' \<and>
   fallbackName '''' = ''.''"
  by (simp add: fallbackName_def Base_def Dir_def Clean_def isVersionSuffix_def
      versionSuffix_def LastIndex_def CutSuffix_def HasSuffix_def IsPathSeparator_def Let_def)


end
